theory Spec2Isabelle
  imports Complex_Main "HOL-Library.Word" "HOL-Library.Log_Nat"
begin

unbundle bit_operations_syntax

section \<open>Data model of hal_core.cpp\<close>

text \<open>
  The file keeps its state in file-level statics. They are gathered in one record that
  every operation takes and returns. C \<open>int\<close> values are modelled as \<open>int\<close> (no
  overflow is modelled: they hold window sizes, pixel coordinates and a wheel count),
  \<open>uint8_t\<close> masks as \<open>8 word\<close>, \<open>pixel_t\<close> (an RGB565 pixel) as \<open>16 word\<close>.
  \<open>double\<close> and \<open>float\<close> are IEEE 754 binary64 and binary32 with rounding to nearest,
  ties to even, every operation being rounded to its own type (section Floating point).
  An access outside an array is undefined behaviour in C++; the model returns the value
  \<open>ArrayOutOfBounds\<close> there. So is the conversion to \<open>int\<close> of a floating-point value
  that is infinite, not a number or outside the range of \<open>int\<close>: the model returns
  \<open>FloatToIntUndefined\<close>. The exception thrown by \<open>throw_error\<close> is \<open>gfx_exception\<close>;
  \<open>ConfigurationError\<close> is the failure of the palette lookup.
\<close>

type_synonym uint8_t = "8 word"
type_synonym pixel_t = "16 word"

datatype fault = ArrayOutOfBounds | FloatToIntUndefined | gfx_exception | ConfigurationError

record SDL_Rect =
  rect_x :: int
  rect_y :: int
  rect_w :: int
  rect_h :: int

record TouchInfo =
  ti_x :: int
  ti_y :: int
  ti_state :: "32 word"

text \<open>
  Modelled from the spec: the declaration of \<open>TouchInfo\<close> (hal_core.h) is not part of the
  sources at hand. The spec describes the states None, Pressed, JustPressed and
  JustReleased as independently OR-able bits, None being the empty set. They are taken
  as three distinct single bits.
\<close>

definition TouchInfo_None :: "32 word"
  where "TouchInfo_None = 0"

definition Pressed :: "32 word"
  where "Pressed = 1"

definition JustPressed :: "32 word"
  where "JustPressed = 2"

definition JustReleased :: "32 word"
  where "JustReleased = 4"

definition TouchInfo_default :: TouchInfo
  where "TouchInfo_default = \<lparr>ti_x = 0, ti_y = 0, ti_state = TouchInfo_None\<rparr>"

record hal_state =
  window_w :: int  \<comment> \<open>what \<open>SDL_GetWindowSize\<close> reports for \<open>sdlWin\<close>\<close>
  window_h :: int
  window_fullscreen :: bool  \<comment> \<open>the window's \<open>SDL_WINDOW_FULLSCREEN_DESKTOP\<close> flag\<close>
  screenWidth :: int
  screenHeight :: int
  original_palette :: "uint8_t \<Rightarrow> pixel_t"  \<comment> \<open>\<open>std::array<pixel_t, 256>\<close>\<close>
  palette :: "uint8_t \<Rightarrow> pixel_t"
  debug_trace_state :: bool
  reload_requested :: bool
  keyState :: uint8_t
  joyState :: uint8_t
  hatState :: uint8_t
  simState :: uint8_t
  mouseWheel :: int
  touchState :: "TouchInfo list"  \<comment> \<open>\<open>std::array<TouchInfo, 8>\<close>\<close>

definition touchState_size :: nat
  where "touchState_size = 8"

text \<open>
  The statics as the file initialises them; the initial screen size comes from config.h
  and the window size from the platform, so they are arguments.
\<close>

definition initial_state :: "int \<Rightarrow> int \<Rightarrow> int \<Rightarrow> int \<Rightarrow> hal_state"
  where "initial_state w h sw sh =
    \<lparr>window_w = w, window_h = h, window_fullscreen = False,
     screenWidth = sw, screenHeight = sh,
     original_palette = (\<lambda>_. 0), palette = (\<lambda>_. 0),
     debug_trace_state = False, reload_requested = False,
     keyState = 0, joyState = 0, hatState = 0, simState = 0, mouseWheel = 0,
     touchState = replicate touchState_size TouchInfo_default\<rparr>"

subsection \<open>Platform events\<close>

datatype SDL_EventType =
    SDL_QUIT | SDL_KEYDOWN | SDL_KEYUP | SDL_MOUSEWHEEL
  | SDL_JOYAXISMOTION | SDL_JOYHATMOTION | SDL_JOYBUTTONDOWN | SDL_JOYBUTTONUP
  | SDL_FINGERDOWN | SDL_FINGERMOTION | SDL_FINGERUP | SDL_OTHEREVENT

datatype SDL_Keycode =
    SDLK_LEFT | SDLK_RIGHT | SDLK_UP | SDLK_DOWN | SDLK_z | SDLK_x | SDLK_p
  | SDLK_RETURN | SDLK_ESCAPE | SDLK_F11 | SDLK_q | SDLK_t | SDLK_r | SDLK_OTHER nat

text \<open>
  \<open>SDL_Event\<close> is a union; the record lists the members that the file reads.
  \<open>jhat_value\<close> is what \<open>SDL_JoystickGetHat(joystick, 0)\<close> answers while the event is
  handled. \<open>tfinger_fingerId\<close> is a signed 64-bit identifier. \<open>tfinger_x\<close> and
  \<open>tfinger_y\<close> are finite \<open>float\<close> values, given by the real numbers they denote.
\<close>

record SDL_Event =
  ev_type :: SDL_EventType
  key_sym :: SDL_Keycode
  key_mod :: "16 word"
  wheel_y :: int
  jaxis_axis :: uint8_t
  jaxis_value :: "16 word"
  jhat_value :: uint8_t
  jbutton_button :: uint8_t
  jbutton_state :: uint8_t
  tfinger_fingerId :: int
  tfinger_x :: real
  tfinger_y :: real

definition blank_event :: "SDL_EventType \<Rightarrow> SDL_Event"
  where "blank_event t =
    \<lparr>ev_type = t, key_sym = SDLK_OTHER 0, key_mod = 0, wheel_y = 0, jaxis_axis = 0,
     jaxis_value = 0, jhat_value = 0, jbutton_button = 0, jbutton_state = 0,
     tfinger_fingerId = 0, tfinger_x = 0, tfinger_y = 0\<rparr>"

definition key_event :: "SDL_EventType \<Rightarrow> SDL_Keycode \<Rightarrow> 16 word \<Rightarrow> SDL_Event"
  where "key_event t k m = (blank_event t)\<lparr>key_sym := k, key_mod := m\<rparr>"

definition axis_event :: "uint8_t \<Rightarrow> 16 word \<Rightarrow> SDL_Event"
  where "axis_event a v = (blank_event SDL_JOYAXISMOTION)\<lparr>jaxis_axis := a, jaxis_value := v\<rparr>"

definition finger_event :: "SDL_EventType \<Rightarrow> int \<Rightarrow> real \<Rightarrow> real \<Rightarrow> SDL_Event"
  where "finger_event t fid fx fy =
    (blank_event t)\<lparr>tfinger_fingerId := fid, tfinger_x := fx, tfinger_y := fy\<rparr>"

definition KMOD_CTRL :: "16 word"
  where "KMOD_CTRL = 0x00C0"

definition SDL_HAT_UP :: uint8_t
  where "SDL_HAT_UP = 0x01"

definition SDL_HAT_RIGHT :: uint8_t
  where "SDL_HAT_RIGHT = 0x02"

definition SDL_HAT_DOWN :: uint8_t
  where "SDL_HAT_DOWN = 0x04"

definition SDL_HAT_LEFT :: uint8_t
  where "SDL_HAT_LEFT = 0x08"

section \<open>Floating point\<close>

text \<open>
  A finite floating-point value is given by the real number it denotes; the two zeros are
  not told apart. \<open>fp_round p emin\<close> rounds a real number to the nearest number
  \<open>m * 2 powi e\<close> with a significand \<open>m\<close> of at most \<open>p\<close> bits and \<open>emin \<le> e\<close>, ties to
  the even significand: \<open>p = 53\<close>, \<open>emin = - 1074\<close> for binary64 and \<open>p = 24\<close>,
  \<open>emin = - 149\<close> for binary32. \<open>floor_log2 x\<close> is the exponent \<open>k\<close> with
  \<open>2 powi k \<le> x < 2 powi (k + 1)\<close> of a positive \<open>x\<close>.
\<close>

datatype fpval = Finite real | PInf | NInf | NaN

definition round_half_even :: "real \<Rightarrow> int"
  where "round_half_even t =
    (let f = \<lfloor>t\<rfloor>
     in if t - of_int f < 1 / 2 then f
        else if 1 / 2 < t - of_int f then f + 1
        else if even f then f else f + 1)"

definition floor_log2 :: "real \<Rightarrow> int"
  where "floor_log2 x = (if 1 \<le> x then bitlen \<lfloor>x\<rfloor> - 1 else - bitlen (\<lceil>1 / x\<rceil> - 1))"

definition fp_exp :: "nat \<Rightarrow> int \<Rightarrow> real \<Rightarrow> int"
  where "fp_exp p emin x = max (floor_log2 \<bar>x\<bar> - (int p - 1)) emin"

definition fp_round :: "nat \<Rightarrow> int \<Rightarrow> real \<Rightarrow> real"
  where "fp_round p emin x =
    (if x = 0 then 0
     else of_int (round_half_even (x / 2 powi fp_exp p emin x)) * 2 powi fp_exp p emin x)"

text \<open>Operations on \<open>double\<close>: the exact result rounded, and the rules for infinities.\<close>

definition d_round :: "real \<Rightarrow> fpval"
  where "d_round x =
    (let r = fp_round 53 (- 1074) x
     in if 2 ^ 1024 \<le> \<bar>r\<bar> then (if 0 < r then PInf else NInf) else Finite r)"

definition d_of_int :: "int \<Rightarrow> fpval"
  where "d_of_int i = d_round (of_int i)"

fun d_mul :: "fpval \<Rightarrow> fpval \<Rightarrow> fpval"
  where
    "d_mul (Finite a) (Finite b) = d_round (a * b)"
  | "d_mul NaN y = NaN"
  | "d_mul x NaN = NaN"
  | "d_mul (Finite a) PInf = (if a = 0 then NaN else if 0 < a then PInf else NInf)"
  | "d_mul (Finite a) NInf = (if a = 0 then NaN else if 0 < a then NInf else PInf)"
  | "d_mul PInf (Finite b) = (if b = 0 then NaN else if 0 < b then PInf else NInf)"
  | "d_mul NInf (Finite b) = (if b = 0 then NaN else if 0 < b then NInf else PInf)"
  | "d_mul PInf PInf = PInf"
  | "d_mul PInf NInf = NInf"
  | "d_mul NInf PInf = NInf"
  | "d_mul NInf NInf = PInf"

text \<open>
  In a division by zero the divisor is taken as the positive zero. The divisors of the
  file are a converted \<open>int\<close>, whose zero is positive, and the scale in \<open>scaleMouse\<close>,
  whose quotient is converted to \<open>int\<close>, which is undefined for either infinity.
\<close>

fun d_div :: "fpval \<Rightarrow> fpval \<Rightarrow> fpval"
  where
    "d_div (Finite a) (Finite b) =
       (if b = 0 then (if a = 0 then NaN else if 0 < a then PInf else NInf)
        else d_round (a / b))"
  | "d_div NaN y = NaN"
  | "d_div x NaN = NaN"
  | "d_div (Finite a) PInf = Finite 0"
  | "d_div (Finite a) NInf = Finite 0"
  | "d_div PInf (Finite b) = (if 0 \<le> b then PInf else NInf)"
  | "d_div NInf (Finite b) = (if 0 \<le> b then NInf else PInf)"
  | "d_div PInf PInf = NaN"
  | "d_div PInf NInf = NaN"
  | "d_div NInf PInf = NaN"
  | "d_div NInf NInf = NaN"

fun d_gt :: "fpval \<Rightarrow> fpval \<Rightarrow> bool"
  where
    "d_gt (Finite a) (Finite b) = (b < a)"
  | "d_gt NaN y = False"
  | "d_gt x NaN = False"
  | "d_gt PInf PInf = False"
  | "d_gt PInf y = True"
  | "d_gt x PInf = False"
  | "d_gt NInf y = False"
  | "d_gt (Finite a) NInf = True"

text \<open>
  The conversion \<open>(int)d\<close> truncates towards zero; it is undefined when the truncated value
  is not an \<open>int\<close> (of 32 bits).
\<close>

definition trunc_real :: "real \<Rightarrow> int"
  where "trunc_real d = (if 0 \<le> d then \<lfloor>d\<rfloor> else \<lceil>d\<rceil>)"

definition real_to_int :: "real \<Rightarrow> int option"
  where "real_to_int d =
    (if - (2 ^ 31) \<le> trunc_real d \<and> trunc_real d < 2 ^ 31 then Some (trunc_real d) else None)"

fun d_to_int :: "fpval \<Rightarrow> int option"
  where
    "d_to_int (Finite d) = real_to_int d"
  | "d_to_int x = None"

text \<open>
  Operations on \<open>float\<close>. A result too large for a \<open>float\<close> is an infinity in the code;
  here it stays the large number, and both have no conversion to \<open>int\<close>.
\<close>

definition f_round :: "real \<Rightarrow> real"
  where "f_round x = fp_round 24 (- 149) x"

definition f_of_int :: "int \<Rightarrow> real"
  where "f_of_int i = f_round (of_int i)"

definition f_mul :: "real \<Rightarrow> real \<Rightarrow> real"
  where "f_mul a b = f_round (a * b)"

section \<open>Coordinate mapping\<close>

text \<open>The quotient \<open>a / b\<close> of two C ints truncates towards zero.\<close>

definition int_div :: "int \<Rightarrow> int \<Rightarrow> int"
  where "int_div a b = sgn a * sgn b * (\<bar>a\<bar> div \<bar>b\<bar>)"

text \<open>\<open>getDisplayArea\<close> returns the rectangle and stores the scale through its pointer.\<close>

definition getDisplayArea :: "hal_state \<Rightarrow> fault + (SDL_Rect \<times> fpval)"
  where "getDisplayArea s =
    (let winx = window_w s; winy = window_h s;
         r = \<lparr>rect_x = 0, rect_y = 0, rect_w = winx, rect_h = winy\<rparr>;
         xscale = d_div (d_of_int winx) (d_of_int (screenWidth s));
         yscale = d_div (d_of_int winy) (d_of_int (screenHeight s))
     in if d_gt (d_mul xscale (d_of_int (screenHeight s))) (d_of_int winy) then
          (case d_to_int (d_mul yscale (d_of_int (screenWidth s))) of
             None \<Rightarrow> Inl FloatToIntUndefined
           | Some w \<Rightarrow>
               Inr (r\<lparr>rect_w := w, rect_x := int_div winx 2 - int_div w 2\<rparr>, yscale))
        else
          (case d_to_int (d_mul xscale (d_of_int (screenHeight s))) of
             None \<Rightarrow> Inl FloatToIntUndefined
           | Some h \<Rightarrow>
               Inr (r\<lparr>rect_h := h, rect_y := int_div winy 2 - int_div h 2\<rparr>, xscale)))"

definition scaleMouse :: "hal_state \<Rightarrow> int \<times> int \<Rightarrow> fault + (int \<times> int)"
  where "scaleMouse s p =
    (case getDisplayArea s of
       Inl f \<Rightarrow> Inl f
     | Inr (r, scale) \<Rightarrow>
         (let x = fst p - rect_x r;
              y = snd p - rect_y r
          in case d_to_int (d_div (d_of_int x) scale) of
               None \<Rightarrow> Inl FloatToIntUndefined
             | Some vx \<Rightarrow>
                 (case d_to_int (d_div (d_of_int y) scale) of
                    None \<Rightarrow> Inl FloatToIntUndefined
                  | Some vy \<Rightarrow> Inr (vx, vy))))"

section \<open>Input aggregation\<close>

definition set_state_bit :: "uint8_t \<Rightarrow> nat \<Rightarrow> bool \<Rightarrow> bool \<Rightarrow> uint8_t"
  where "set_state_bit state b condition v =
    (if condition then
       (if v then state OR push_bit b 1 else state AND NOT (push_bit b 1))
     else state)"

definition INP_GetTouchInfo :: "hal_state \<Rightarrow> int \<Rightarrow> fault + TouchInfo"
  where "INP_GetTouchInfo s idx =
    (if idx < 0 \<and> idx \<ge> int touchState_size then Inr TouchInfo_default
     else if 0 \<le> idx \<and> nat idx < length (touchState s) then Inr (touchState s ! nat idx)
     else Inl ArrayOutOfBounds)"

definition flush_slot :: "TouchInfo \<Rightarrow> TouchInfo"
  where "flush_slot t =
    (let t1 = (if ti_state t AND JustPressed \<noteq> 0
               then t\<lparr>ti_state := ti_state t AND NOT JustPressed\<rparr> else t)
     in if ti_state t1 AND JustReleased \<noteq> 0 then t1\<lparr>ti_state := TouchInfo_None\<rparr> else t1)"

definition flushTouchEvents :: "hal_state \<Rightarrow> hal_state"
  where "flushTouchEvents s = s\<lparr>touchState := map flush_slot (touchState s)\<rparr>"

text \<open>
  \<open>processTouchEvent\<close>: the guard compares the 64-bit identifier with the table size;
  the index is the identifier converted to \<open>int\<close> (its low 32 bits, signed).
\<close>

definition touch_flags :: "SDL_EventType \<Rightarrow> 32 word \<Rightarrow> 32 word"
  where "touch_flags t st =
    (let s1 = (if t = SDL_FINGERDOWN then st OR (JustPressed OR Pressed) else st);
         s2 = (if t = SDL_FINGERMOTION then s1 OR Pressed else s1)
     in if t = SDL_FINGERUP then s2 OR JustReleased else s2)"

text \<open>
  The position that \<open>processTouchEvent\<close> stores: the \<open>float\<close> products of the normalised
  coordinates and the window size, converted to \<open>int\<close>, then mapped by \<open>scaleMouse\<close>.
\<close>

definition touch_position :: "SDL_Event \<Rightarrow> hal_state \<Rightarrow> fault + (int \<times> int)"
  where "touch_position ev s =
    (case real_to_int (f_mul (tfinger_x ev) (f_of_int (window_w s))) of
       None \<Rightarrow> Inl FloatToIntUndefined
     | Some px \<Rightarrow>
         (case real_to_int (f_mul (tfinger_y ev) (f_of_int (window_h s))) of
            None \<Rightarrow> Inl FloatToIntUndefined
          | Some py \<Rightarrow> scaleMouse s (px, py)))"

definition processTouchEvent :: "SDL_Event \<Rightarrow> hal_state \<Rightarrow> fault + hal_state"
  where "processTouchEvent ev s =
    (if tfinger_fingerId ev < int touchState_size then
       (let idx = sint (word_of_int (tfinger_fingerId ev) :: 32 word)
        in if 0 \<le> idx \<and> nat idx < length (touchState s) then
             (case touch_position ev s of
                Inl f \<Rightarrow> Inl f
              | Inr (vx, vy) \<Rightarrow>
                  (let ti = touchState s ! nat idx;
                       ti' = ti\<lparr>ti_x := vx, ti_y := vy,
                               ti_state := touch_flags (ev_type ev) (ti_state ti)\<rparr>
                   in Inr (s\<lparr>touchState := (touchState s)[nat idx := ti']\<rparr>)))
           else Inl ArrayOutOfBounds)
     else Inr s)"

definition GFX_ToggleFullScreen :: "hal_state \<Rightarrow> hal_state"
  where "GFX_ToggleFullScreen s = s\<lparr>window_fullscreen := \<not> window_fullscreen s\<rparr>"

definition key_bits :: "SDL_Event \<Rightarrow> uint8_t \<Rightarrow> uint8_t"
  where "key_bits ev k0 =
    (let down = (ev_type ev = SDL_KEYDOWN);
         k1 = set_state_bit k0 0 (key_sym ev = SDLK_LEFT) down;
         k2 = set_state_bit k1 1 (key_sym ev = SDLK_RIGHT) down;
         k3 = set_state_bit k2 2 (key_sym ev = SDLK_UP) down;
         k4 = set_state_bit k3 3 (key_sym ev = SDLK_DOWN) down;
         k5 = set_state_bit k4 4 (key_sym ev = SDLK_z) down;
         k6 = set_state_bit k5 5 (key_sym ev = SDLK_x) down;
         k7 = set_state_bit k6 6 (key_sym ev = SDLK_p) down;
         k8 = set_state_bit k7 6 (key_sym ev = SDLK_RETURN) down
     in set_state_bit k8 7 (key_sym ev = SDLK_ESCAPE) down)"

definition axis_bits :: "SDL_Event \<Rightarrow> uint8_t \<Rightarrow> uint8_t"
  where "axis_bits ev j0 =
    (let j1 = set_state_bit j0 0 (jaxis_axis ev = 0) (sint (jaxis_value ev) < - 1500);
         j2 = set_state_bit j1 1 (jaxis_axis ev = 0) (sint (jaxis_value ev) > 1500);
         j3 = set_state_bit j2 2 (jaxis_axis ev = 1) (sint (jaxis_value ev) < - 1500)
     in set_state_bit j3 3 (jaxis_axis ev = 1) (sint (jaxis_value ev) > 1500))"

definition hat_bits :: "SDL_Event \<Rightarrow> uint8_t \<Rightarrow> uint8_t"
  where "hat_bits ev h0 =
    (let hatval = jhat_value ev;
         h1 = set_state_bit h0 0 True (hatval AND SDL_HAT_LEFT \<noteq> 0);
         h2 = set_state_bit h1 1 True (hatval AND SDL_HAT_RIGHT \<noteq> 0);
         h3 = set_state_bit h2 2 True (hatval AND SDL_HAT_UP \<noteq> 0)
     in set_state_bit h3 3 True (hatval AND SDL_HAT_DOWN \<noteq> 0))"

definition button_bits :: "SDL_Event \<Rightarrow> uint8_t \<Rightarrow> uint8_t"
  where "button_bits ev j0 =
    (let j1 = set_state_bit j0 4 (jbutton_button ev = 1) (jbutton_state ev \<noteq> 0);
         j2 = set_state_bit j1 5 (jbutton_button ev = 0) (jbutton_state ev \<noteq> 0)
     in set_state_bit j2 6 (jbutton_button ev = 7) (jbutton_state ev \<noteq> 0))"

definition INP_ProcessInputEvents :: "SDL_Event \<Rightarrow> hal_state \<Rightarrow> fault + (bool \<times> hal_state)"
  where "INP_ProcessInputEvents ev s =
    (if ev_type ev = SDL_KEYDOWN \<and> key_sym ev = SDLK_F11 then
       Inr (True, GFX_ToggleFullScreen s)
     else if ev_type ev = SDL_KEYDOWN \<and> key_sym ev = SDLK_q \<and> key_mod ev AND KMOD_CTRL \<noteq> 0 then
       Inr (False, s)
     else if ev_type ev = SDL_KEYDOWN \<and> key_sym ev = SDLK_t \<and> key_mod ev AND KMOD_CTRL \<noteq> 0 then
       Inr (True, s\<lparr>debug_trace_state := \<not> debug_trace_state s\<rparr>)
     else if ev_type ev = SDL_KEYDOWN \<and> key_sym ev = SDLK_r \<and> key_mod ev AND KMOD_CTRL \<noteq> 0 then
       Inr (True, s\<lparr>reload_requested := True\<rparr>)
     else if ev_type ev = SDL_KEYDOWN \<or> ev_type ev = SDL_KEYUP then
       Inr (True, s\<lparr>keyState := key_bits ev (keyState s)\<rparr>)
     else if ev_type ev = SDL_MOUSEWHEEL then
       Inr (True, s\<lparr>mouseWheel := mouseWheel s + wheel_y ev\<rparr>)
     else if ev_type ev = SDL_JOYAXISMOTION then
       Inr (True, s\<lparr>joyState := axis_bits ev (joyState s)\<rparr>)
     else if ev_type ev = SDL_JOYHATMOTION then
       Inr (True, s\<lparr>hatState := hat_bits ev (hatState s)\<rparr>)
     else if ev_type ev = SDL_JOYBUTTONDOWN \<or> ev_type ev = SDL_JOYBUTTONUP then
       Inr (True, s\<lparr>joyState := button_bits ev (joyState s)\<rparr>)
     else if ev_type ev = SDL_FINGERDOWN \<or> ev_type ev = SDL_FINGERMOTION
             \<or> ev_type ev = SDL_FINGERUP then
       (case processTouchEvent ev s of Inl f \<Rightarrow> Inl f | Inr s' \<Rightarrow> Inr (True, s'))
     else Inr (True, s))"

text \<open>
  \<open>EVT_ProcessEvents\<close>: the argument is the platform's queue of pending events, from
  which \<open>SDL_PollEvent\<close> takes the first. Both branches of the loop body return, so the
  body runs at most once. The result carries the events still pending.
\<close>

definition EVT_ProcessEvents :: "SDL_Event list \<Rightarrow> hal_state \<Rightarrow> fault + (bool \<times> SDL_Event list \<times> hal_state)"
  where "EVT_ProcessEvents queue s =
    (case queue of
       [] \<Rightarrow> Inr (True, [], s)
     | e # pending \<Rightarrow>
         (if ev_type e = SDL_QUIT then Inr (False, pending, s)
          else (case INP_ProcessInputEvents e s of
                  Inl f \<Rightarrow> Inl f
                | Inr (r, s') \<Rightarrow> Inr (r, pending, s'))))"

definition INP_GetInputState :: "hal_state \<Rightarrow> uint8_t"
  where "INP_GetInputState s = keyState s OR joyState s OR hatState s OR simState s"

definition INP_SetSimState :: "uint8_t \<Rightarrow> hal_state \<Rightarrow> hal_state"
  where "INP_SetSimState st s = s\<lparr>simState := st\<rparr>"

definition HAL_StartFrame :: "hal_state \<Rightarrow> hal_state"
  where "HAL_StartFrame s = s\<lparr>simState := 0, reload_requested := False\<rparr>"

definition HAL_EndFrame :: "hal_state \<Rightarrow> hal_state"
  where "HAL_EndFrame s = flushTouchEvents s"

text \<open>
  The successive handling of a sequence of events, one call of \<open>INP_ProcessInputEvents\<close>
  for each, whatever the calls return; it stops at a fault.
\<close>

fun apply_events :: "SDL_Event list \<Rightarrow> hal_state \<Rightarrow> fault + hal_state"
  where
    "apply_events [] s = Inr s"
  | "apply_events (e # es) s =
      (case INP_ProcessInputEvents e s of
         Inl f \<Rightarrow> Inl f
       | Inr (c, s') \<Rightarrow> apply_events es s')"

text \<open>
  A run of frames, each given by the events handled in it: \<open>HAL_StartFrame\<close>, the
  events, \<open>HAL_EndFrame\<close>.
\<close>

fun run_frames :: "SDL_Event list list \<Rightarrow> hal_state \<Rightarrow> fault + hal_state"
  where
    "run_frames [] s = Inr s"
  | "run_frames (evs # fs) s =
      (case apply_events evs (HAL_StartFrame s) of
         Inl f \<Rightarrow> Inl f
       | Inr s' \<Rightarrow> run_frames fs (HAL_EndFrame s'))"

subsection \<open>Reading of the keyboard mask\<close>

text \<open>The physical keys that lines 336 to 344 attach to each bit of the keyboard mask.\<close>

definition keys_of_bit :: "nat \<Rightarrow> SDL_Keycode list"
  where "keys_of_bit b =
    (if b = 0 then [SDLK_LEFT] else if b = 1 then [SDLK_RIGHT]
     else if b = 2 then [SDLK_UP] else if b = 3 then [SDLK_DOWN]
     else if b = 4 then [SDLK_z] else if b = 5 then [SDLK_x]
     else if b = 6 then [SDLK_p, SDLK_RETURN] else if b = 7 then [SDLK_ESCAPE]
     else [])"

definition is_key_event :: "SDL_Event \<Rightarrow> bool"
  where "is_key_event e = (ev_type e = SDL_KEYDOWN \<or> ev_type e = SDL_KEYUP)"

definition events_of_keys :: "SDL_Keycode list \<Rightarrow> SDL_Event list \<Rightarrow> SDL_Event list"
  where "events_of_keys ks evs = filter (\<lambda>e. is_key_event e \<and> key_sym e \<in> set ks) evs"

text \<open>
  \<open>last_down ks dflt evs\<close>: the most recent key event of \<open>evs\<close> for one of the keys \<open>ks\<close>
  is a down event; \<open>dflt\<close> when there is no such event.
\<close>

definition last_down :: "SDL_Keycode list \<Rightarrow> bool \<Rightarrow> SDL_Event list \<Rightarrow> bool"
  where "last_down ks dflt evs =
    (case events_of_keys ks evs of [] \<Rightarrow> dflt | e # es \<Rightarrow> ev_type (last (e # es)) = SDL_KEYDOWN)"

text \<open>
  The keyboard bit as the specification words it: the disjunction, over the physical keys
  of the bit, of "the most recent event for that physical key was a down event".
\<close>

definition spec_key_bit :: "nat \<Rightarrow> SDL_Event list \<Rightarrow> bool"
  where "spec_key_bit b evs = list_ex (\<lambda>k. last_down [k] False evs) (keys_of_bit b)"

section \<open>Palette table\<close>

text \<open>
  \<open>GFX_GetPixel\<close> is \<open>SDL_MapRGB\<close> for the pixel format \<open>SDL_PIXELFORMAT_RGB565\<close> that
  \<open>GFX_CreateBackBuffer\<close> allocates: five bits of red, six of green, five of blue.
\<close>

definition GFX_GetPixel :: "uint8_t \<Rightarrow> uint8_t \<Rightarrow> uint8_t \<Rightarrow> pixel_t"
  where "GFX_GetPixel r g b =
    push_bit 11 (ucast (drop_bit 3 r)) OR push_bit 5 (ucast (drop_bit 2 g)) OR ucast (drop_bit 3 b)"

definition palette_entry :: "32 word \<Rightarrow> pixel_t"
  where "palette_entry p =
    GFX_GetPixel (ucast (drop_bit 16 p AND 0xff)) (ucast (drop_bit 8 p AND 0xff)) (ucast (p AND 0xff))"

text \<open>The loop of \<open>GFX_SelectPalette\<close> over the entries of the table, \<open>i\<close> the running index.\<close>

fun select_loop :: "32 word list \<Rightarrow> nat \<Rightarrow> hal_state \<Rightarrow> hal_state"
  where
    "select_loop [] i s = s"
  | "select_loop (p # ps) i s =
      (let pix = palette_entry p
       in select_loop ps (i + 1)
            (s\<lparr>original_palette := (original_palette s)(of_nat i := pix),
               palette := (palette s)(of_nat i := pix)\<rparr>))"

text \<open>
  Modelled from the spec: \<open>GFX_GetPaletteInfo\<close> (hal_palette) is not part of the sources
  at hand. The registry of named tables is an argument, and a name that it does not know
  is the specification's \<open>ConfigurationError\<close>. A table of more than 256 entries would be
  written past the end of the two arrays.
\<close>

definition GFX_SelectPalette :: "(string \<Rightarrow> 32 word list option) \<Rightarrow> string \<Rightarrow> hal_state \<Rightarrow> fault + hal_state"
  where "GFX_SelectPalette registry name s =
    (case registry name of
       None \<Rightarrow> Inl ConfigurationError
     | Some pal \<Rightarrow> if length pal \<le> 256 then Inr (select_loop pal 0 s) else Inl ArrayOutOfBounds)"

definition GFX_RestorePalette :: "hal_state \<Rightarrow> hal_state"
  where "GFX_RestorePalette s = s\<lparr>palette := original_palette s\<rparr>"

definition GFX_RestorePaletteIndex :: "uint8_t \<Rightarrow> hal_state \<Rightarrow> hal_state"
  where "GFX_RestorePaletteIndex i s = s\<lparr>palette := (palette s)(i := original_palette s i)\<rparr>"

definition GFX_SetPaletteIndex :: "uint8_t \<Rightarrow> uint8_t \<Rightarrow> uint8_t \<Rightarrow> uint8_t \<Rightarrow> hal_state \<Rightarrow> hal_state"
  where "GFX_SetPaletteIndex i r g b s = s\<lparr>palette := (palette s)(i := GFX_GetPixel r g b)\<rparr>"

text \<open>A sequence of \<open>GFX_SetPaletteIndex\<close> calls, each given by its four arguments.\<close>

definition set_palette_indices :: "(uint8_t \<times> uint8_t \<times> uint8_t \<times> uint8_t) list \<Rightarrow> hal_state \<Rightarrow> hal_state"
  where "set_palette_indices ops s = fold (\<lambda>(i, r, g, b). GFX_SetPaletteIndex i r g b) ops s"

text \<open>
  A registry that knows one table, of four entries, under the name pico8; it serves the
  concrete runs below.
\<close>

definition sample_registry :: "string \<Rightarrow> 32 word list option"
  where "sample_registry name =
    (if name = ''pico8'' then Some [0x000000, 0x1D2B53, 0x7E2553, 0x008751] else None)"

section \<open>Framebuffer compositor\<close>

text \<open>
  \<open>buffer\<close> is the memory that the source pointer addresses and \<open>pixels\<close> the memory of the
  locked texture; \<open>bo\<close> and \<open>po\<close> are the offsets that the two pointers have reached.
  \<open>copy_pixel\<close> is one statement \<open>pixels[x] = palette[buffer[x]]\<close>.
\<close>

definition sizeof_pixel_t :: nat
  where "sizeof_pixel_t = 2"

definition copy_pixel :: "(uint8_t \<Rightarrow> pixel_t) \<Rightarrow> uint8_t list \<Rightarrow> nat \<Rightarrow> nat \<Rightarrow> nat \<Rightarrow> pixel_t list \<Rightarrow> fault + pixel_t list"
  where "copy_pixel pal buffer bo po x pixels =
    (if bo + x < length buffer \<and> po + x < length pixels
     then Inr (pixels[po + x := pal (buffer ! (bo + x))])
     else Inl ArrayOutOfBounds)"

function copy_row :: "(uint8_t \<Rightarrow> pixel_t) \<Rightarrow> uint8_t list \<Rightarrow> nat \<Rightarrow> nat \<Rightarrow> nat \<Rightarrow> nat \<Rightarrow> pixel_t list \<Rightarrow> fault + pixel_t list"
  where "copy_row pal buffer bo po buffer_w x pixels =
    (if x < buffer_w then
       (case copy_pixel pal buffer bo po x pixels of
          Inl f \<Rightarrow> Inl f
        | Inr p1 \<Rightarrow>
            (case copy_pixel pal buffer bo po (x + 1) p1 of
               Inl f \<Rightarrow> Inl f
             | Inr p2 \<Rightarrow> copy_row pal buffer bo po buffer_w (x + 1 + 1) p2))
     else Inr pixels)"
  by pat_completeness auto
termination
  by (relation "measure (\<lambda>(pal, buffer, bo, po, buffer_w, x, pixels). buffer_w - x)") auto

function copy_rows :: "(uint8_t \<Rightarrow> pixel_t) \<Rightarrow> uint8_t list \<Rightarrow> nat \<Rightarrow> nat \<Rightarrow> nat \<Rightarrow> nat \<Rightarrow> nat \<Rightarrow> nat \<Rightarrow> pixel_t list \<Rightarrow> fault + pixel_t list"
  where "copy_rows pal buffer bo po buffer_w buffer_h stride y pixels =
    (if y < buffer_h then
       (case copy_row pal buffer bo po buffer_w 0 pixels of
          Inl f \<Rightarrow> Inl f
        | Inr p1 \<Rightarrow> copy_rows pal buffer (bo + buffer_w) (po + stride) buffer_w buffer_h stride (y + 1) p1)
     else Inr pixels)"
  by pat_completeness auto
termination
  by (relation "measure (\<lambda>(pal, buffer, bo, po, buffer_w, buffer_h, stride, y, pixels). buffer_h - y)") auto

text \<open>
  \<open>locked\<close> is the answer of \<open>SDL_LockTexture\<close>: \<open>None\<close> when it fails, else the pixel
  memory from the origin of the locked rectangle on and the pitch in bytes.
\<close>

definition GFX_CopyBackBuffer :: "hal_state \<Rightarrow> uint8_t list \<Rightarrow> int \<Rightarrow> int \<Rightarrow> (pixel_t list \<times> int) option \<Rightarrow> fault + pixel_t list"
  where "GFX_CopyBackBuffer s buffer buffer_w buffer_h locked =
    (case locked of
       None \<Rightarrow> Inl gfx_exception
     | Some (pixels, pitch) \<Rightarrow>
         copy_rows (palette s) buffer 0 0 (nat buffer_w) (nat buffer_h)
           (nat pitch div sizeof_pixel_t) 0 pixels)"

declare copy_row.simps [simp del]
declare copy_rows.simps [simp del]

section \<open>Properties\<close>

subsection \<open>Rounding\<close>

lemma pow2_less_iff: "(2::real) powi a < 2 powi b \<longleftrightarrow> a < b"
proof
  assume "(2::real) powi a < 2 powi b"
  show "a < b"
  proof (rule ccontr)
    assume "\<not> a < b"
    then have "(2::real) powi b \<le> 2 powi a"
      by (intro power_int_increasing) simp_all
    with \<open>(2::real) powi a < 2 powi b\<close> show False by simp
  qed
next
  assume "a < b"
  then show "(2::real) powi a < 2 powi b"
    by (intro power_int_strict_increasing) simp_all
qed

lemma pow2_le_iff: "(2::real) powi a \<le> 2 powi b \<longleftrightarrow> a \<le> b"
  using pow2_less_iff [of b a] by (simp add: not_less [symmetric])

lemma floor_log2_bounds:
  assumes "0 < x"
  shows "2 powi floor_log2 x \<le> x" "x < 2 powi (floor_log2 x + 1)"
proof -
  show "2 powi floor_log2 x \<le> x"
  proof (cases "1 \<le> x")
    case True
    then have n: "0 < \<lfloor>x\<rfloor>" by simp
    from bitlen_bounds [OF n] have "2 ^ nat (bitlen \<lfloor>x\<rfloor> - 1) \<le> \<lfloor>x\<rfloor>" by simp
    then have "real_of_int (2 ^ nat (bitlen \<lfloor>x\<rfloor> - 1)) \<le> real_of_int \<lfloor>x\<rfloor>"
      by (simp only: of_int_le_iff)
    also have "\<dots> \<le> x" by simp
    finally have "2 ^ nat (bitlen \<lfloor>x\<rfloor> - 1) \<le> x" by simp
    moreover from n have "1 \<le> bitlen \<lfloor>x\<rfloor>" by (auto simp: bitlen_alt_def)
    ultimately show ?thesis
      using True by (simp add: floor_log2_def power_int_nonneg_exp)
  next
    case False
    with assms have y: "1 < 1 / x" by simp
    let ?n = "\<lceil>1 / x\<rceil>"
    from y have n: "0 < ?n - 1" by (simp add: less_ceiling_iff)
    let ?j = "bitlen (?n - 1)"
    from bitlen_bounds [OF n] have "?n - 1 < 2 ^ nat ?j" by simp
    then have "?n \<le> 2 ^ nat ?j" by simp
    then have "real_of_int ?n \<le> real_of_int (2 ^ nat ?j)" by (simp only: of_int_le_iff)
    moreover have "1 / x \<le> real_of_int ?n" by (rule le_of_int_ceiling)
    ultimately have "1 / x \<le> real_of_int (2 ^ nat ?j)" by (rule order_trans [rotated])
    then have "1 / x \<le> 2 ^ nat ?j" by simp
    then have "1 / 2 ^ nat ?j \<le> x"
      using assms by (simp add: field_simps)
    moreover have "0 \<le> ?j" by (rule bitlen_nonneg)
    ultimately show ?thesis
      using False by (simp add: floor_log2_def power_int_minus_divide power_int_nonneg_exp)
  qed
  show "x < 2 powi (floor_log2 x + 1)"
  proof (cases "1 \<le> x")
    case True
    then have n: "0 < \<lfloor>x\<rfloor>" by simp
    from bitlen_bounds [OF n] have "\<lfloor>x\<rfloor> < 2 ^ nat (bitlen \<lfloor>x\<rfloor>)" by simp
    then have "\<lfloor>x\<rfloor> + 1 \<le> 2 ^ nat (bitlen \<lfloor>x\<rfloor>)" by simp
    then have "real_of_int (\<lfloor>x\<rfloor> + 1) \<le> real_of_int (2 ^ nat (bitlen \<lfloor>x\<rfloor>))"
      by (simp only: of_int_le_iff)
    then have "real_of_int \<lfloor>x\<rfloor> + 1 \<le> 2 ^ nat (bitlen \<lfloor>x\<rfloor>)" by simp
    moreover have "x < real_of_int \<lfloor>x\<rfloor> + 1" by linarith
    ultimately have "x < 2 ^ nat (bitlen \<lfloor>x\<rfloor>)" by linarith
    moreover have "0 \<le> bitlen \<lfloor>x\<rfloor>" by (rule bitlen_nonneg)
    ultimately show ?thesis
      using True by (simp add: floor_log2_def power_int_nonneg_exp)
  next
    case False
    with assms have y: "1 < 1 / x" by simp
    let ?n = "\<lceil>1 / x\<rceil>"
    from y have n: "0 < ?n - 1" by (simp add: less_ceiling_iff)
    let ?j = "bitlen (?n - 1)"
    from n have j: "1 \<le> ?j" by (auto simp: bitlen_alt_def)
    from bitlen_bounds [OF n] have "2 ^ nat (?j - 1) \<le> ?n - 1" by simp
    then have "real_of_int (2 ^ nat (?j - 1)) \<le> real_of_int (?n - 1)" by (simp only: of_int_le_iff)
    then have "2 ^ nat (?j - 1) \<le> real_of_int ?n - 1" by simp
    moreover have "real_of_int ?n - 1 < 1 / x" by linarith
    ultimately have "2 ^ nat (?j - 1) < 1 / x" by linarith
    then have "x < 1 / 2 ^ nat (?j - 1)"
      using assms by (simp add: field_simps)
    moreover have "(2::real) powi (- (?j - 1)) = 1 / 2 ^ nat (?j - 1)"
      using j by (simp only: power_int_minus_divide) (simp add: power_int_nonneg_exp)
    moreover have "floor_log2 x + 1 = - (?j - 1)"
      using False by (simp add: floor_log2_def)
    ultimately show ?thesis
      by (simp only:)
  qed
qed

lemma floor_log2_eqI:
  assumes "2 powi k \<le> x" "x < 2 powi (k + 1)"
  shows "floor_log2 x = k"
proof -
  have "(0::real) < 2 powi k" by simp
  with assms have pos: "0 < x" by linarith
  note b = floor_log2_bounds [OF pos]
  from b(1) assms(2) have "(2::real) powi floor_log2 x < 2 powi (k + 1)" by linarith
  then have "floor_log2 x < k + 1"
    by (simp only: pow2_less_iff)
  moreover from b(2) assms(1) have "(2::real) powi k < 2 powi (floor_log2 x + 1)" by linarith
  then have "k < floor_log2 x + 1"
    by (simp only: pow2_less_iff)
  ultimately show ?thesis by simp
qed

lemma round_half_even_of_int [simp]: "round_half_even (of_int n) = n"
  by (simp add: round_half_even_def)

lemma round_half_even_cases:
  "round_half_even t = \<lfloor>t\<rfloor> \<or> round_half_even t = \<lfloor>t\<rfloor> + 1"
  by (simp add: round_half_even_def Let_def)

lemma round_half_even_mono:
  assumes "s \<le> t"
  shows "round_half_even s \<le> round_half_even t"
proof (cases "\<lfloor>s\<rfloor> = \<lfloor>t\<rfloor>")
  case False
  with assms have "\<lfloor>s\<rfloor> < \<lfloor>t\<rfloor>"
    using floor_mono [OF assms] by simp
  with round_half_even_cases [of s] round_half_even_cases [of t] show ?thesis
    by auto
next
  case True
  with assms show ?thesis
    by (auto simp: round_half_even_def Let_def)
qed

lemma round_half_even_ge: "of_int n \<le> t \<Longrightarrow> n \<le> round_half_even t"
  using round_half_even_mono [of "of_int n" t] by simp

lemma round_half_even_le: "t \<le> of_int n \<Longrightarrow> round_half_even t \<le> n"
  using round_half_even_mono [of t "of_int n"] by simp

lemma fp_round_alt:
  "x \<noteq> 0 \<Longrightarrow> fp_round p emin x =
     of_int (round_half_even (x / 2 powi fp_exp p emin x)) * 2 powi fp_exp p emin x"
  by (simp add: fp_round_def)

lemma floor_log2_less:
  assumes "0 < x" "x < 2 powi k"
  shows "floor_log2 x < k"
proof -
  from floor_log2_bounds(1) [OF assms(1)] assms(2) have "(2::real) powi floor_log2 x < 2 powi k"
    by linarith
  then show ?thesis by (simp only: pow2_less_iff)
qed

lemma floor_log2_ge:
  assumes "2 powi k \<le> x"
  shows "k \<le> floor_log2 x"
proof -
  have "(0::real) < 2 powi k" by simp
  with assms have pos: "0 < x" by linarith
  from floor_log2_bounds(2) [OF pos] assms have "(2::real) powi k < 2 powi (floor_log2 x + 1)"
    by linarith
  then have "k < floor_log2 x + 1" by (simp only: pow2_less_iff)
  then show ?thesis by simp
qed

lemma floor_log2_mono:
  assumes "0 < x" "x \<le> y"
  shows "floor_log2 x \<le> floor_log2 y"
proof -
  from floor_log2_bounds(1) [OF assms(1)] assms(2) have "2 powi floor_log2 x \<le> y" by linarith
  then show ?thesis by (rule floor_log2_ge)
qed

lemma pow2_split: "a \<le> b \<Longrightarrow> (2::real) powi b = of_int (2 ^ nat (b - a)) * 2 powi a"
proof -
  assume "a \<le> b"
  then have "(2::real) powi (b - a) = 2 ^ nat (b - a)"
    by (simp add: power_int_nonneg_exp)
  moreover have "(2::real) powi b = 2 powi (b - a) * 2 powi a"
    by (simp flip: power_int_add)
  ultimately show ?thesis by simp
qed

text \<open>A value with a significand of at most \<open>p\<close> bits and an exponent in range is kept.\<close>

lemma fp_round_exact:
  assumes "0 < m" "m < 2 ^ p" "emin \<le> e"
  shows "fp_round p emin (of_int m * 2 powi e) = of_int m * 2 powi e"
proof -
  let ?x = "real_of_int m * 2 powi e"
  have pos: "0 < ?x" using assms(1) by simp
  let ?E = "fp_exp p emin ?x"
  have "real_of_int m < 2 ^ p"
    using assms(2) by (metis of_int_less_numeral_power_cancel_iff)
  then have "?x < 2 ^ p * 2 powi e"
    by (simp add: mult_strict_right_mono)
  also have "\<dots> = 2 powi (int p + e)"
    by (simp add: power_int_add)
  finally have "floor_log2 ?x < int p + e"
    using pos by (intro floor_log2_less)
  with assms(3) pos have E: "?E \<le> e"
    by (simp add: fp_exp_def)
  have "?x / 2 powi ?E = of_int m * (of_int (2 ^ nat (e - ?E)) * 2 powi ?E) / 2 powi ?E"
    by (simp only: pow2_split [OF E, symmetric])
  also have "\<dots> = of_int (m * 2 ^ nat (e - ?E))"
    by simp
  finally have "round_half_even (?x / 2 powi ?E) = m * 2 ^ nat (e - ?E)"
    by (simp only: round_half_even_of_int)
  then have "fp_round p emin ?x = of_int (m * 2 ^ nat (e - ?E)) * 2 powi ?E"
    using pos by (simp only: fp_round_alt [of ?x p emin])
  also have "\<dots> = of_int m * (of_int (2 ^ nat (e - ?E)) * 2 powi ?E)"
    by simp
  also have "\<dots> = ?x"
    by (simp only: pow2_split [OF E, symmetric])
  finally show ?thesis .
qed

lemma fp_round_of_int:
  assumes "0 < n" "n < 2 ^ p" "emin \<le> 0"
  shows "fp_round p emin (of_int n) = of_int n"
  using fp_round_exact [OF assms(1,2,3)] by simp

lemma fp_exp_mono:
  assumes "0 < x" "x \<le> y"
  shows "fp_exp p emin x \<le> fp_exp p emin y"
  using floor_log2_mono [OF assms] assms by (simp add: fp_exp_def)

lemma fp_round_nonneg: "0 \<le> x \<Longrightarrow> 0 \<le> fp_round p emin x"
proof (cases "x = 0")
  case True
  then show ?thesis by (simp add: fp_round_def)
next
  case False
  assume "0 \<le> x"
  then have "of_int 0 \<le> x / 2 powi fp_exp p emin x" by simp
  then have "0 \<le> round_half_even (x / 2 powi fp_exp p emin x)"
    by (rule round_half_even_ge)
  with False show ?thesis
    by (simp add: fp_round_alt)
qed

text \<open>Rounding is monotone (stated for positive arguments).\<close>

lemma fp_round_mono:
  assumes p: "0 < p" and "0 < x" "x \<le> y"
  shows "fp_round p emin x \<le> fp_round p emin y"
proof -
  let ?ex = "fp_exp p emin x" and ?ey = "fp_exp p emin y"
  from assms have y: "0 < y" by simp
  have le: "?ex \<le> ?ey" using assms(2,3) by (rule fp_exp_mono)
  have rx: "fp_round p emin x = of_int (round_half_even (x / 2 powi ?ex)) * 2 powi ?ex"
    using assms(2) by (simp add: fp_round_alt)
  have ry: "fp_round p emin y = of_int (round_half_even (y / 2 powi ?ey)) * 2 powi ?ey"
    using y by (simp add: fp_round_alt)
  show ?thesis
  proof (cases "?ex = ?ey")
    case True
    have "x / 2 powi ?ey \<le> y / 2 powi ?ey"
      using assms(3) by (simp add: divide_right_mono)
    then have "round_half_even (x / 2 powi ?ey) \<le> round_half_even (y / 2 powi ?ey)"
      by (rule round_half_even_mono)
    then have "real_of_int (round_half_even (x / 2 powi ?ey)) * 2 powi ?ey
        \<le> real_of_int (round_half_even (y / 2 powi ?ey)) * 2 powi ?ey"
      by (simp add: mult_right_mono)
    then show ?thesis
      by (simp only: rx ry True)
  next
    case False
    with le have lt: "?ex < ?ey" by simp
    let ?L = "floor_log2 y"
    from lt have ey: "?ey = ?L - (int p - 1)" and lx: "floor_log2 x < ?L"
      using y assms(2) by (auto simp: fp_exp_def max_def split: if_splits)
    have exL: "?ex \<le> ?L" using lt ey p by simp
    have eyL: "?ey \<le> ?L" using ey p by simp
    text \<open>the rounded \<open>x\<close> is at most \<open>2 powi ?L\<close>\<close>
    have "x < 2 powi (floor_log2 x + 1)"
      using assms(2) by (rule floor_log2_bounds)
    also have "\<dots> \<le> 2 powi ?L"
      using lx by (simp add: pow2_le_iff)
    finally have "x / 2 powi ?ex \<le> 2 powi ?L / 2 powi ?ex"
      by (simp add: divide_right_mono)
    also have "\<dots> = of_int (2 ^ nat (?L - ?ex))"
      by (simp add: pow2_split [OF exL])
    finally have "round_half_even (x / 2 powi ?ex) \<le> 2 ^ nat (?L - ?ex)"
      by (rule round_half_even_le)
    then have "real_of_int (round_half_even (x / 2 powi ?ex)) \<le> real_of_int (2 ^ nat (?L - ?ex))"
      by (simp only: of_int_le_iff)
    then have "fp_round p emin x \<le> of_int (2 ^ nat (?L - ?ex)) * 2 powi ?ex"
      unfolding rx by (intro mult_right_mono) simp_all
    also have "\<dots> = 2 powi ?L"
      by (simp only: pow2_split [OF exL, symmetric])
    finally have a: "fp_round p emin x \<le> 2 powi ?L" .
    text \<open>and the rounded \<open>y\<close> at least that\<close>
    have "2 powi ?L \<le> y"
      using y by (rule floor_log2_bounds)
    then have "2 powi ?L / 2 powi ?ey \<le> y / 2 powi ?ey"
      by (simp add: divide_right_mono)
    moreover have "2 powi ?L / 2 powi ?ey = real_of_int (2 ^ nat (?L - ?ey))"
      by (simp add: pow2_split [OF eyL])
    ultimately have "real_of_int (2 ^ nat (?L - ?ey)) \<le> y / 2 powi ?ey"
      by simp
    then have "2 ^ nat (?L - ?ey) \<le> round_half_even (y / 2 powi ?ey)"
      by (rule round_half_even_ge)
    then have "real_of_int (2 ^ nat (?L - ?ey)) \<le> real_of_int (round_half_even (y / 2 powi ?ey))"
      by (simp only: of_int_le_iff)
    then have "of_int (2 ^ nat (?L - ?ey)) * 2 powi ?ey \<le> fp_round p emin y"
      unfolding ry by (intro mult_right_mono) simp_all
    then have b: "2 powi ?L \<le> fp_round p emin y"
      by (simp only: pow2_split [OF eyL, symmetric])
    from a b show ?thesis by simp
  qed
qed

text \<open>A rounded value is kept by a second rounding.\<close>

lemma fp_round_idem:
  assumes p: "0 < p" and "0 < x"
  shows "fp_round p emin (fp_round p emin x) = fp_round p emin x"
proof -
  let ?E = "fp_exp p emin x"
  let ?r = "round_half_even (x / 2 powi ?E)"
  have rx: "fp_round p emin x = of_int ?r * 2 powi ?E"
    using assms(2) by (simp add: fp_round_alt)
  have emin: "emin \<le> ?E" by (simp add: fp_exp_def)
  have EL: "floor_log2 x + 1 - int p \<le> ?E"
    using assms(2) by (simp add: fp_exp_def)
  have "0 \<le> x / 2 powi ?E" using assms(2) by simp
  then have "of_int 0 \<le> x / 2 powi ?E" by simp
  then have r0: "0 \<le> ?r" by (rule round_half_even_ge)
  have "x < 2 powi (floor_log2 x + 1)"
    using assms(2) by (rule floor_log2_bounds)
  also have "\<dots> \<le> 2 powi (?E + int p)"
    using EL by (simp add: pow2_le_iff)
  finally have "x / 2 powi ?E \<le> 2 powi (?E + int p) / 2 powi ?E"
    by (simp add: divide_right_mono)
  also have "\<dots> = of_int (2 ^ p)"
    by (simp add: power_int_add)
  finally have rp: "?r \<le> 2 ^ p" by (rule round_half_even_le)
  consider "?r = 0" | "0 < ?r" "?r < 2 ^ p" | "?r = 2 ^ p"
    using r0 rp by linarith
  then show ?thesis
  proof cases
    case 1
    then have "fp_round p emin x = 0" by (simp add: rx)
    moreover have "fp_round p emin 0 = 0" by (simp add: fp_round_def)
    ultimately show ?thesis by simp
  next
    case 2
    from fp_round_exact [OF 2 emin] show ?thesis by (simp only: rx)
  next
    case 3
    obtain q where q: "p = Suc q" using p by (cases p) simp_all
    have r3: "real_of_int ?r = 2 ^ p"
      using 3 by simp
    have "real_of_int ?r * 2 powi ?E = of_int (2 ^ q) * 2 powi (?E + 1)"
      unfolding r3 by (simp add: q power_int_add)
    moreover have "fp_round p emin (of_int (2 ^ q) * 2 powi (?E + 1)) = of_int (2 ^ q) * 2 powi (?E + 1)"
      using emin by (intro fp_round_exact) (simp_all add: q)
    ultimately show ?thesis by (simp only: rx)
  qed
qed

lemma powi_minus_nat: "(2::real) powi (- int n) = 1 / 2 ^ n"
  by (simp add: power_int_minus field_simps)

lemma fp_round_sandwich:
  assumes p: "0 < p" and l: "0 < l" "l \<le> x" "x \<le> u"
    and el: "fp_round p emin l = l" and eu: "fp_round p emin u = u"
  shows "l \<le> fp_round p emin x" "fp_round p emin x \<le> u"
proof -
  have "fp_round p emin l \<le> fp_round p emin x"
    using p l by (intro fp_round_mono) simp_all
  then show "l \<le> fp_round p emin x"
    by (simp add: el)
  have "fp_round p emin x \<le> fp_round p emin u"
    using p l by (intro fp_round_mono) simp_all
  then show "fp_round p emin x \<le> u"
    by (simp add: eu)
qed

lemma d_grid:
  fixes t :: real
  assumes lo: "1 \<le> t * 2 ^ n" and hi: "t * 2 ^ n + 1 < 2 ^ 53" and n: "n \<le> 1074"
  shows "\<bar>fp_round 53 (- 1074) t - t\<bar> < 1 / 2 ^ n" "0 < fp_round 53 (- 1074) t"
proof -
  let ?l = "real_of_int \<lfloor>t * 2 ^ n\<rfloor> * 2 powi (- int n)"
  let ?u = "real_of_int \<lceil>t * 2 ^ n\<rceil> * 2 powi (- int n)"
  have fl: "0 < \<lfloor>t * 2 ^ n\<rfloor>"
    using lo by linarith
  have ce: "0 < \<lceil>t * 2 ^ n\<rceil>"
    using lo by linarith
  have "real_of_int \<lfloor>t * 2 ^ n\<rfloor> < 2 ^ 53"
    using hi by linarith
  then have fl2: "\<lfloor>t * 2 ^ n\<rfloor> < 2 ^ 53"
    by (metis of_int_less_iff of_int_numeral of_int_power)
  have "real_of_int \<lceil>t * 2 ^ n\<rceil> < 2 ^ 53"
    using hi by linarith
  then have ce2: "\<lceil>t * 2 ^ n\<rceil> < 2 ^ 53"
    by (metis of_int_less_iff of_int_numeral of_int_power)
  have e: "(- 1074 :: int) \<le> - int n"
    using n by simp
  have el: "fp_round 53 (- 1074) ?l = ?l"
    using fl fl2 e by (rule fp_round_exact)
  have eu: "fp_round 53 (- 1074) ?u = ?u"
    using ce ce2 e by (rule fp_round_exact)
  have l: "?l = real_of_int \<lfloor>t * 2 ^ n\<rfloor> / 2 ^ n" and u: "?u = real_of_int \<lceil>t * 2 ^ n\<rceil> / 2 ^ n"
    by (simp_all add: powi_minus_nat)
  have l0: "0 < ?l"
    using fl by (simp add: l)
  have lt: "?l \<le> t"
    unfolding l by (simp add: pos_divide_le_eq)
  have tu: "t \<le> ?u"
    unfolding u by (simp add: pos_le_divide_eq)
  have l1: "t - 1 / 2 ^ n < ?l"
  proof -
    have "t * 2 ^ n - 1 < real_of_int \<lfloor>t * 2 ^ n\<rfloor>"
      by linarith
    then have "(t * 2 ^ n - 1) / 2 ^ n < real_of_int \<lfloor>t * 2 ^ n\<rfloor> / 2 ^ n"
      by (simp add: divide_strict_right_mono)
    then show ?thesis
      by (simp add: l diff_divide_distrib)
  qed
  have u1: "?u < t + 1 / 2 ^ n"
  proof -
    have "real_of_int \<lceil>t * 2 ^ n\<rceil> < t * 2 ^ n + 1"
      by linarith
    then have "real_of_int \<lceil>t * 2 ^ n\<rceil> / 2 ^ n < (t * 2 ^ n + 1) / 2 ^ n"
      by (simp add: divide_strict_right_mono)
    then show ?thesis
      by (simp add: u add_divide_distrib)
  qed
  have s: "?l \<le> fp_round 53 (- 1074) t" "fp_round 53 (- 1074) t \<le> ?u"
    using fp_round_sandwich [OF _ l0 lt tu el eu] by simp_all
  from s l1 u1 show "\<bar>fp_round 53 (- 1074) t - t\<bar> < 1 / 2 ^ n"
    by linarith
  from s l0 show "0 < fp_round 53 (- 1074) t"
    by linarith
qed

lemma d_round_Finite: "\<bar>fp_round 53 (- 1074) x\<bar> < 2 ^ 64 \<Longrightarrow> d_round x = Finite (fp_round 53 (- 1074) x)"
proof -
  assume a: "\<bar>fp_round 53 (- 1074) x\<bar> < 2 ^ 64"
  have "(2::real) ^ 64 \<le> 2 ^ 1024"
    by (rule power_increasing) simp_all
  with a have "\<not> 2 ^ 1024 \<le> \<bar>fp_round 53 (- 1074) x\<bar>"
    by linarith
  then show ?thesis
    by (simp add: d_round_def Let_def)
qed

lemma d_of_int_exact:
  assumes "0 < i" "i < 65536"
  shows "d_of_int i = Finite (of_int i)"
proof -
  have "i < 2 ^ 53"
    using assms by simp
  then have e: "fp_round 53 (- 1074) (of_int i) = of_int i"
    using assms by (intro fp_round_of_int) simp_all
  have "\<bar>real_of_int i\<bar> < 2 ^ 64"
    using assms by simp
  then show ?thesis
    unfolding d_of_int_def using d_round_Finite [of "of_int i"] by (simp add: e)
qed

lemma round_half_even_near:
  assumes "real_of_int n - 1 / 2 < t" "t < real_of_int n + 1 / 2"
  shows "round_half_even t = n"
proof (cases "real_of_int n \<le> t")
  case True
  then have "\<lfloor>t\<rfloor> = n"
    using assms by linarith
  then show ?thesis
    using assms by (simp add: round_half_even_def Let_def)
next
  case False
  then have "\<lfloor>t\<rfloor> = n - 1"
    using assms by linarith
  then show ?thesis
    using assms by (simp add: round_half_even_def Let_def)
qed

text \<open>
  The rounding of a given number: \<open>j\<close> places the number between \<open>2 ^ (p - 1)\<close> and
  \<open>2 ^ p\<close>, where \<open>n\<close> is the nearest whole number.
\<close>

lemma fp_round_near:
  fixes x :: real
  assumes p: "0 < p" and lo: "2 ^ (p - 1) \<le> x * 2 ^ j" and hi: "x * 2 ^ j < 2 ^ p"
    and e: "emin \<le> - int j"
    and n: "real_of_int n - 1 / 2 < x * 2 ^ j" "x * 2 ^ j < real_of_int n + 1 / 2"
  shows "fp_round p emin x = real_of_int n / 2 ^ j"
proof -
  have "(0::real) < 2 ^ (p - 1)"
    by simp
  with lo have "0 < x * 2 ^ j"
    by linarith
  then have x: "0 < x"
    by (simp add: zero_less_mult_iff)
  have ip: "int p - 1 = int (p - 1)"
    using p by simp
  have a: "(2::real) powi (int p - 1 - int j) = 2 ^ (p - 1) / 2 ^ j"
    unfolding ip by (simp add: power_int_diff)
  have b: "(2::real) powi (int p - 1 - int j + 1) = 2 ^ p / 2 ^ j"
  proof -
    have "int p - 1 - int j + 1 = int p - int j"
      by simp
    then show ?thesis
      by (simp add: power_int_diff)
  qed
  have "2 powi (int p - 1 - int j) \<le> x"
    unfolding a using lo by (simp add: pos_divide_le_eq)
  moreover have "x < 2 powi (int p - 1 - int j + 1)"
    unfolding b using hi by (simp add: pos_less_divide_eq)
  ultimately have "floor_log2 x = int p - 1 - int j"
    by (rule floor_log2_eqI)
  then have ex: "fp_exp p emin x = - int j"
    using x e by (simp add: fp_exp_def)
  have "x / 2 powi (- int j) = x * 2 ^ j"
    by (simp add: powi_minus_nat)
  then have "round_half_even (x / 2 powi (- int j)) = n"
    using n by (simp only: round_half_even_near)
  then show ?thesis
    using x by (simp add: fp_round_alt ex powi_minus_nat)
qed

lemma binary64_nearest:
  fixes x :: real
  assumes lo: "2 ^ 52 \<le> x * 2 ^ j" and hi: "x * 2 ^ j < 2 ^ 53" and j: "j \<le> 1074"
    and n: "real_of_int n - 1 / 2 < x * 2 ^ j" "x * 2 ^ j < real_of_int n + 1 / 2"
  shows "fp_round 53 (- 1074) x = real_of_int n / 2 ^ j"
  using fp_round_near [of 53 x j "- 1074" n] assms by simp

lemma binary32_nearest:
  fixes x :: real
  assumes lo: "2 ^ 23 \<le> x * 2 ^ j" and hi: "x * 2 ^ j < 2 ^ 24" and j: "j \<le> 149"
    and n: "real_of_int n - 1 / 2 < x * 2 ^ j" "x * 2 ^ j < real_of_int n + 1 / 2"
  shows "f_round x = real_of_int n / 2 ^ j"
  unfolding f_round_def using fp_round_near [of 24 x j "- 149" n] assms by simp

text \<open>A number with a short binary expansion is rounded to itself.\<close>

lemma binary64_exact:
  assumes "0 < m" "m < 2 ^ 53" "n \<le> 1074" "x = real_of_int m / 2 ^ n"
  shows "fp_round 53 (- 1074) x = x"
proof -
  have "fp_round 53 (- 1074) (real_of_int m * 2 powi (- int n)) = real_of_int m * 2 powi (- int n)"
    using assms(1-3) by (intro fp_round_exact) simp_all
  then show ?thesis
    by (simp add: assms(4) powi_minus_nat)
qed

lemma binary32_exact:
  assumes "0 < m" "m < 2 ^ 24" "n \<le> 149" "x = real_of_int m / 2 ^ n"
  shows "f_round x = x"
proof -
  have "fp_round 24 (- 149) (real_of_int m * 2 powi (- int n)) = real_of_int m * 2 powi (- int n)"
    using assms(1-3) by (intro fp_round_exact) simp_all
  then show ?thesis
    by (simp add: f_round_def assms(4) powi_minus_nat)
qed

lemma d_round_exact:
  assumes "0 < m" "m < 2 ^ 53" "n \<le> 1074" "x = real_of_int m / 2 ^ n"
  shows "d_round x = Finite x"
proof -
  have e: "fp_round 53 (- 1074) x = x"
    using assms by (rule binary64_exact)
  have "(1::real) \<le> 2 ^ n"
    by simp
  with assms(1) have "real_of_int m * 1 \<le> real_of_int m * 2 ^ n"
    by (intro mult_left_mono) simp_all
  then have "x \<le> real_of_int m"
    by (simp add: assms(4) pos_divide_le_eq)
  moreover have "real_of_int m < 2 ^ 53"
    using assms(2) by (metis of_int_less_iff of_int_numeral of_int_power)
  moreover have "0 < x"
    using assms(1) by (simp add: assms(4))
  moreover have "(2::real) ^ 53 < 2 ^ 64"
    by simp
  ultimately have "\<bar>fp_round 53 (- 1074) x\<bar> < 2 ^ 64"
    unfolding e by linarith
  then show ?thesis
    using d_round_Finite [of x] by (simp add: e)
qed

lemma d_round_nearest:
  fixes x :: real
  assumes lo: "2 ^ 52 \<le> x * 2 ^ j" and hi: "x * 2 ^ j < 2 ^ 53" and j: "j \<le> 1074"
    and n: "real_of_int n - 1 / 2 < x * 2 ^ j" "x * 2 ^ j < real_of_int n + 1 / 2"
  shows "d_round x = Finite (real_of_int n / 2 ^ j)"
proof -
  have e: "fp_round 53 (- 1074) x = real_of_int n / 2 ^ j"
    using assms by (rule binary64_nearest)
  have "(0::real) < 2 ^ 52"
    by simp
  with lo n(2) have "0 < real_of_int n + 1 / 2"
    by linarith
  then have n0: "0 \<le> n"
    by linarith
  have "(1::real) \<le> 2 ^ j"
    by simp
  with n0 have "real_of_int n * 1 \<le> real_of_int n * 2 ^ j"
    by (intro mult_left_mono) simp_all
  then have "real_of_int n / 2 ^ j \<le> real_of_int n"
    by (simp add: pos_divide_le_eq)
  moreover have "real_of_int n < 2 ^ 53 + 1 / 2"
    using hi n(1) by linarith
  moreover have "(2::real) ^ 53 + 1 / 2 < 2 ^ 64"
    by simp
  moreover have "0 \<le> real_of_int n / 2 ^ j"
    using n0 by simp
  ultimately have "\<bar>fp_round 53 (- 1074) x\<bar> < 2 ^ 64"
    unfolding e by linarith
  then show ?thesis
    using d_round_Finite [of x] by (simp add: e)
qed

lemma round_half_even_minus: "round_half_even (- t) = - round_half_even t"
proof (cases "t = of_int \<lfloor>t\<rfloor>")
  case True
  then have "round_half_even (- t) = round_half_even (of_int (- \<lfloor>t\<rfloor>))"
    by simp
  also have "\<dots> = - \<lfloor>t\<rfloor>"
    by (rule round_half_even_of_int)
  also have "\<dots> = - round_half_even (of_int \<lfloor>t\<rfloor>)"
    by (simp only: round_half_even_of_int)
  finally show ?thesis
    using True by simp
next
  case False
  then have d: "0 < t - of_int \<lfloor>t\<rfloor>" "t - of_int \<lfloor>t\<rfloor> < 1"
    by linarith+
  have f: "\<lfloor>- t\<rfloor> = - \<lfloor>t\<rfloor> - 1"
    using d by linarith
  have e: "- t - of_int \<lfloor>- t\<rfloor> = 1 - (t - of_int \<lfloor>t\<rfloor>)"
    by (simp add: f)
  consider "t - of_int \<lfloor>t\<rfloor> < 1 / 2" | "1 / 2 < t - of_int \<lfloor>t\<rfloor>" | "t - of_int \<lfloor>t\<rfloor> = 1 / 2"
    by linarith
  then show ?thesis
  proof cases
    case 1
    then have "round_half_even t = \<lfloor>t\<rfloor>"
      by (simp add: round_half_even_def Let_def)
    moreover from 1 have "1 / 2 < - t - of_int \<lfloor>- t\<rfloor>"
      unfolding e by linarith
    then have "round_half_even (- t) = \<lfloor>- t\<rfloor> + 1"
      unfolding round_half_even_def Let_def by (simp del: of_int_diff of_int_minus)
    ultimately show ?thesis
      by (simp add: f)
  next
    case 2
    then have "round_half_even t = \<lfloor>t\<rfloor> + 1"
      unfolding round_half_even_def Let_def by simp
    moreover from 2 have "- t - of_int \<lfloor>- t\<rfloor> < 1 / 2"
      unfolding e by linarith
    then have "round_half_even (- t) = \<lfloor>- t\<rfloor>"
      unfolding round_half_even_def Let_def by (simp del: of_int_diff of_int_minus)
    ultimately show ?thesis
      by (simp add: f)
  next
    case 3
    then have a: "round_half_even t = (if even \<lfloor>t\<rfloor> then \<lfloor>t\<rfloor> else \<lfloor>t\<rfloor> + 1)"
      unfolding round_half_even_def Let_def by simp
    from 3 have "- t - of_int \<lfloor>- t\<rfloor> = 1 / 2"
      unfolding e by linarith
    then have "round_half_even (- t) = (if even \<lfloor>- t\<rfloor> then \<lfloor>- t\<rfloor> else \<lfloor>- t\<rfloor> + 1)"
      unfolding round_half_even_def Let_def by (simp del: of_int_diff of_int_minus)
    then show ?thesis
      unfolding a f by simp
  qed
qed

lemma fp_round_minus: "fp_round p emin (- x) = - fp_round p emin x"
proof (cases "x = 0")
  case True
  then show ?thesis
    by (simp add: fp_round_def)
next
  case False
  have e: "fp_exp p emin (- x) = fp_exp p emin x"
    by (simp add: fp_exp_def)
  have "- x / 2 powi fp_exp p emin x = - (x / 2 powi fp_exp p emin x)"
    by simp
  then have "round_half_even (- x / 2 powi fp_exp p emin x)
      = - round_half_even (x / 2 powi fp_exp p emin x)"
    by (simp only: round_half_even_minus)
  with False show ?thesis
    by (simp add: fp_round_alt e)
qed

lemma fp_round_abs_le:
  assumes p: "0 < p" and x: "\<bar>x\<bar> \<le> u" and u: "0 < u" "fp_round p emin u = u"
  shows "\<bar>fp_round p emin x\<bar> \<le> u"
proof -
  have pos: "fp_round p emin y \<le> u \<and> 0 \<le> fp_round p emin y" if "0 \<le> y" "y \<le> u" for y
  proof (cases "y = 0")
    case True
    then show ?thesis
      using u(1) by (simp add: fp_round_def)
  next
    case False
    with that have "0 < y"
      by simp
    from fp_round_mono [OF p this that(2), of emin] show ?thesis
      using that(1) by (simp add: u(2) fp_round_nonneg)
  qed
  show ?thesis
  proof (cases "0 \<le> x")
    case True
    with x pos [of x] show ?thesis
      by simp
  next
    case False
    with x pos [of "- x"] show ?thesis
      by (simp add: fp_round_minus)
  qed
qed

lemma fp_round_bounds:
  assumes p: "0 < p" and y: "0 \<le> y" "y \<le> u" and u: "0 < u" "fp_round p emin u = u"
  shows "0 \<le> fp_round p emin y" "fp_round p emin y \<le> u"
  using fp_round_abs_le [OF p _ u, of y] y by (simp_all add: fp_round_nonneg)

lemma d_of_int_signed:
  assumes "\<bar>i\<bar> < 65536"
  shows "d_of_int i = Finite (real_of_int i)"
proof -
  consider "0 < i" | "i = 0" | "i < 0"
    by linarith
  then show ?thesis
  proof cases
    case 1
    with assms show ?thesis
      by (intro d_of_int_exact) simp_all
  next
    case 2
    have "\<bar>fp_round 53 (- 1074) 0\<bar> < 2 ^ 64"
      by (simp add: fp_round_def)
    from d_round_Finite [OF this] show ?thesis
      by (simp add: 2 d_of_int_def fp_round_def)
  next
    case 3
    with assms have "0 < - i" "- i < 65536"
      by simp_all
    then have "- i < 2 ^ 53"
      by simp
    with \<open>0 < - i\<close> have "fp_round 53 (- 1074) (real_of_int (- i)) = real_of_int (- i)"
      by (intro fp_round_of_int) simp_all
    then have "fp_round 53 (- 1074) (- real_of_int i) = - real_of_int i"
      by simp
    then have e: "fp_round 53 (- 1074) (real_of_int i) = real_of_int i"
      by (simp add: fp_round_minus)
    have "\<bar>real_of_int i\<bar> < 2 ^ 64"
      using assms by simp
    then have "\<bar>fp_round 53 (- 1074) (real_of_int i)\<bar> < 2 ^ 64"
      by (simp only: e)
    from d_round_Finite [OF this] show ?thesis
      by (simp add: d_of_int_def e)
  qed
qed

subsection \<open>The display area\<close>

lemma ratio_bounds:
  fixes a b :: int
  assumes "0 < a" "a < 65536" "0 < b" "b < 65536"
  shows "1 / 2 ^ 16 \<le> real_of_int a / real_of_int b" "real_of_int a / real_of_int b \<le> 2 ^ 16"
proof -
  have a: "1 \<le> real_of_int a" "real_of_int a \<le> 65536"
    using assms by simp_all
  have b: "1 \<le> real_of_int b" "real_of_int b \<le> 65536"
    using assms by simp_all
  have "real_of_int b \<le> real_of_int a * 65536"
    using a b by linarith
  then show "1 / 2 ^ 16 \<le> real_of_int a / real_of_int b"
    using b by (simp add: pos_le_divide_eq)
  have "real_of_int a \<le> 65536 * real_of_int b"
    using a b by linarith
  then show "real_of_int a / real_of_int b \<le> 2 ^ 16"
    using b by (simp add: pos_divide_le_eq)
qed

lemma grid_bounds:
  fixes t l u B :: real
  assumes "l \<le> t" "t \<le> u" "1 \<le> l * 2 ^ n" "u * 2 ^ n + 1 < B"
  shows "1 \<le> t * 2 ^ n" "t * 2 ^ n + 1 < B"
proof -
  have "l * 2 ^ n \<le> t * 2 ^ n" "t * 2 ^ n \<le> u * 2 ^ n"
    using assms(1,2) by (simp_all only: mult_le_cancel_right_pos zero_less_power zero_less_numeral)
  with assms(3,4) show "1 \<le> t * 2 ^ n" "t * 2 ^ n + 1 < B"
    by linarith+
qed

text \<open>The quotient of two sizes as a double.\<close>

lemma d_ratio:
  fixes a b :: int
  assumes "0 < a" "a < 65536" "0 < b" "b < 65536"
  defines "X \<equiv> fp_round 53 (- 1074) (real_of_int a / real_of_int b)"
  shows "d_div (d_of_int a) (d_of_int b) = Finite X"
    and "\<bar>X - real_of_int a / real_of_int b\<bar> < 1 / 2 ^ 36"
    and "0 < X"
proof -
  let ?q = "real_of_int a / real_of_int b"
  note q = ratio_bounds [OF assms(1-4)]
  have n1: "(1::real) \<le> 1 / 2 ^ 16 * 2 ^ 36" and n2: "(2::real) ^ 16 * 2 ^ 36 + 1 < 2 ^ 53"
    by simp_all
  note lo = grid_bounds(1) [OF q n1 n2] and hi = grid_bounds(2) [OF q n1 n2]
  note g = d_grid [OF lo hi]
  show e: "\<bar>X - ?q\<bar> < 1 / 2 ^ 36" and p: "0 < X"
    using g by (simp_all add: X_def)
  have "(2::real) ^ 16 + 1 / 2 ^ 36 < 2 ^ 64"
    by simp
  with e p q(2) have "\<bar>X\<bar> < 2 ^ 64"
    by linarith
  then have "d_round ?q = Finite X"
    unfolding X_def by (rule d_round_Finite)
  then show "d_div (d_of_int a) (d_of_int b) = Finite X"
    using assms(1-4) by (simp add: d_of_int_exact)
qed

text \<open>The product of such a quotient and a size as a double.\<close>

lemma d_product:
  fixes a b c :: int and X :: real
  assumes "0 < a" "a < 65536" "0 < b" "b < 65536" "0 < c" "c < 65536"
    and X: "\<bar>X - real_of_int a / real_of_int b\<bar> < 1 / 2 ^ 36"
  defines "P \<equiv> fp_round 53 (- 1074) (X * real_of_int c)"
  shows "d_mul (Finite X) (d_of_int c) = Finite P"
    and "\<bar>P - real_of_int (a * c) / real_of_int b\<bar> < 1 / 2 ^ 19"
    and "0 < P" and "P < 2 ^ 33"
proof -
  let ?q = "real_of_int a / real_of_int b"
  let ?c = "real_of_int c"
  note q = ratio_bounds [OF assms(1-4)]
  have c: "1 \<le> ?c" "?c \<le> 65536"
    using assms(5,6) by simp_all
  have x1: "1 / 2 ^ 16 - 1 / 2 ^ 36 < X" and x2: "X < 2 ^ 16 + 1 / 2 ^ 36"
    using X q by linarith+
  have x0: "0 < X"
    using x1 by simp
  have "(1 / 2 ^ 16 - 1 / 2 ^ 36) * 1 \<le> X * ?c"
    using x1 x0 c by (intro mult_mono) simp_all
  then have l: "1 / 2 ^ 16 - 1 / 2 ^ 36 \<le> X * ?c"
    by simp
  have "X * ?c \<le> (2 ^ 16 + 1 / 2 ^ 36) * 65536"
    using x2 x0 c by (intro mult_mono) simp_all
  then have u: "X * ?c \<le> 2 ^ 32 + 1 / 2 ^ 20"
    by simp
  have n1: "(1::real) \<le> (1 / 2 ^ 16 - 1 / 2 ^ 36) * 2 ^ 20"
    and n2: "((2::real) ^ 32 + 1 / 2 ^ 20) * 2 ^ 20 + 1 < 2 ^ 53"
    by simp_all
  note lo = grid_bounds(1) [OF l u n1 n2] and hi = grid_bounds(2) [OF l u n1 n2]
  note g = d_grid [OF lo hi]
  have e: "\<bar>P - X * ?c\<bar> < 1 / 2 ^ 20"
    using g by (simp add: P_def)
  show p: "0 < P"
    using g by (simp add: P_def)
  have "X * ?c - ?q * ?c = (X - ?q) * ?c"
    by (simp only: left_diff_distrib)
  then have "\<bar>X * ?c - ?q * ?c\<bar> = \<bar>X - ?q\<bar> * \<bar>?c\<bar>"
    by (simp only: abs_mult)
  also have "\<bar>?c\<bar> = ?c"
    using c by linarith
  finally have "\<bar>X * ?c - ?q * ?c\<bar> = \<bar>X - ?q\<bar> * ?c" .
  also have "\<dots> \<le> 1 / 2 ^ 36 * 65536"
    using X c by (intro mult_mono) simp_all
  finally have d: "\<bar>X * ?c - ?q * ?c\<bar> \<le> 1 / 2 ^ 20"
    by simp
  have qc: "?q * ?c = real_of_int (a * c) / real_of_int b"
    by simp
  have k: "(1::real) / 2 ^ 20 + 1 / 2 ^ 20 = 1 / 2 ^ 19"
    by simp
  have "\<bar>P - ?q * ?c\<bar> < 1 / 2 ^ 20 + 1 / 2 ^ 20"
    using e d by linarith
  then show "\<bar>P - real_of_int (a * c) / real_of_int b\<bar> < 1 / 2 ^ 19"
    by (simp only: k qc)
  have "(2::real) ^ 32 + 1 / 2 ^ 20 + 1 / 2 ^ 20 < 2 ^ 33"
    by simp
  with e u show b: "P < 2 ^ 33"
    by linarith
  have "(2::real) ^ 33 < 2 ^ 64"
    by simp
  with b p have "\<bar>P\<bar> < 2 ^ 64"
    by linarith
  then have "d_round (X * ?c) = Finite P"
    unfolding P_def by (rule d_round_Finite)
  then show "d_mul (Finite X) (d_of_int c) = Finite P"
    using assms(5,6) by (simp add: d_of_int_exact)
qed

text \<open>A fraction is a whole number or at least the inverse of its denominator away from one.\<close>

lemma fraction_gap_less:
  fixes m n b :: int
  assumes "0 < b" "m < n * b"
  shows "real_of_int m / real_of_int b \<le> real_of_int n - 1 / real_of_int b"
proof -
  have "m + 1 \<le> n * b"
    using assms by simp
  then have "real_of_int (m + 1) \<le> real_of_int (n * b)"
    by (simp only: of_int_le_iff)
  then have "real_of_int m \<le> real_of_int n * real_of_int b - 1"
    by simp
  then have "real_of_int m / real_of_int b \<le> (real_of_int n * real_of_int b - 1) / real_of_int b"
    using assms(1) by (simp add: divide_right_mono)
  then show ?thesis
    using assms(1) by (simp add: diff_divide_distrib)
qed

lemma fraction_gap_greater:
  fixes m n b :: int
  assumes "0 < b" "n * b < m"
  shows "real_of_int n + 1 / real_of_int b \<le> real_of_int m / real_of_int b"
proof -
  have "n * b + 1 \<le> m"
    using assms by simp
  then have "real_of_int (n * b + 1) \<le> real_of_int m"
    by (simp only: of_int_le_iff)
  then have "real_of_int n * real_of_int b + 1 \<le> real_of_int m"
    by simp
  then have "(real_of_int n * real_of_int b + 1) / real_of_int b \<le> real_of_int m / real_of_int b"
    using assms(1) by (simp add: divide_right_mono)
  then show ?thesis
    using assms(1) by (simp add: add_divide_distrib)
qed

lemma inverse_size: "0 < b \<Longrightarrow> b < 65536 \<Longrightarrow> 1 / 2 ^ 16 < 1 / real_of_int b" for b :: int
  by (simp add: field_simps)

text \<open>The whole part of a number close to a fraction.\<close>

lemma floor_near_fraction:
  fixes m b :: int and P :: real
  assumes b: "0 < b" "b < 65536"
    and P: "\<bar>P - real_of_int m / real_of_int b\<bar> < 1 / 2 ^ 19"
  shows "\<lfloor>P\<rfloor> = \<lfloor>real_of_int m / real_of_int b\<rfloor> \<or> \<lfloor>P\<rfloor> = \<lceil>real_of_int m / real_of_int b\<rceil> - 1"
proof -
  let ?t = "real_of_int m / real_of_int b"
  let ?n = "m div b"
  note ib = inverse_size [OF b]
  have fl: "\<lfloor>?t\<rfloor> = ?n"
    by (simp add: floor_divide_of_int_eq)
  show ?thesis
  proof (cases "b dvd m")
    case True
    then have m: "m = ?n * b"
      by simp
    have "?t = real_of_int (?n * b) / real_of_int b"
      using m by simp
    then have t: "?t = real_of_int ?n"
      using b by simp
    have "(1::real) / 2 ^ 19 < 1"
      by simp
    with P have "real_of_int ?n - 1 < P" "P < real_of_int ?n + 1"
      unfolding t by linarith+
    then have "\<lfloor>P\<rfloor> = ?n \<or> \<lfloor>P\<rfloor> = ?n - 1"
      by linarith
    then show ?thesis
      unfolding t by auto
  next
    case False
    then have r: "0 < m mod b"
      using b by (metis dvd_eq_mod_eq_0 less_le pos_mod_sign)
    have "?n * b < m"
      using r by (metis add.commute less_add_same_cancel1 mult.commute mult_div_mod_eq )
    from fraction_gap_greater [OF b(1) this] have lo: "real_of_int ?n + 1 / real_of_int b \<le> ?t" .
    have "m mod b < b"
      using b by simp
    then have "m < (?n + 1) * b"
      by (metis add.commute distrib_right mult.commute mult_div_mod_eq add_less_cancel_left mult_1)
    from fraction_gap_less [OF b(1) this] have hi: "?t \<le> real_of_int (?n + 1) - 1 / real_of_int b" .
    have "(1::real) / 2 ^ 19 < 1 / 2 ^ 16"
      by simp
    moreover have "?t \<le> real_of_int ?n + 1 - 1 / real_of_int b"
      using hi by (simp only: of_int_add of_int_1)
    ultimately have "real_of_int ?n < P" "P < real_of_int ?n + 1"
      using P lo ib by linarith+
    then have "\<lfloor>P\<rfloor> = ?n"
      by linarith
    then show ?thesis
      by (simp add: fl)
  qed
qed

lemma int_div_2: "0 \<le> a \<Longrightarrow> int_div a 2 = a div 2"
  by (cases "a = 0") (simp_all add: int_div_def)

lemma real_to_int_floor:
  assumes "0 \<le> P" "P < 2 ^ 31"
  shows "real_to_int P = Some \<lfloor>P\<rfloor>"
proof -
  have "0 \<le> \<lfloor>P\<rfloor>"
    using assms(1) by simp
  moreover have "\<lfloor>P\<rfloor> < 2 ^ 31"
    using assms(2) by (simp add: floor_less_iff)
  ultimately show ?thesis
    using assms(1) by (simp add: real_to_int_def trunc_real_def)
qed

lemma ratio_le_iff:
  fixes a b c d :: int
  assumes "0 < b" "0 < d"
  shows "real_of_int a / real_of_int b \<le> real_of_int c / real_of_int d \<longleftrightarrow> a * d \<le> c * b"
proof -
  have "real_of_int a / real_of_int b \<le> real_of_int c / real_of_int d
      \<longleftrightarrow> real_of_int a * real_of_int d \<le> real_of_int c * real_of_int b"
    using assms by (simp add: field_simps)
  also have "\<dots> \<longleftrightarrow> real_of_int (a * d) \<le> real_of_int (c * b)"
    by simp
  also have "\<dots> \<longleftrightarrow> a * d \<le> c * b"
    by (simp only: of_int_le_iff)
  finally show ?thesis .
qed

text \<open>
  The test of \<open>getDisplayArea\<close>, on the double product, decides as the exact ratios do.
\<close>

lemma letterbox_test:
  fixes a b c n :: int and P :: real
  assumes b: "0 < b" "b < 65536"
    and P: "\<bar>P - real_of_int (a * c) / real_of_int b\<bar> < 1 / 2 ^ 19"
  shows "real_of_int n < P \<Longrightarrow> n * b \<le> a * c" "\<not> real_of_int n < P \<Longrightarrow> a * c \<le> n * b"
proof -
  note ib = inverse_size [OF b]
  have k: "(1::real) / 2 ^ 19 < 1 / 2 ^ 16"
    by simp
  show "n * b \<le> a * c" if "real_of_int n < P"
  proof (rule ccontr)
    assume "\<not> n * b \<le> a * c"
    then have "a * c < n * b"
      by simp
    from fraction_gap_less [OF b(1) this] P ib k that show False
      by linarith
  qed
  show "a * c \<le> n * b" if "\<not> real_of_int n < P"
  proof (rule ccontr)
    assume "\<not> a * c \<le> n * b"
    then have "n * b < a * c"
      by simp
    from fraction_gap_greater [OF b(1) this] P ib k that show False
      by linarith
  qed
qed

text \<open>A side of the rectangle that is cut to whole pixels, and the origin in its direction.\<close>

lemma letterbox_side:
  fixes a b c d :: int and P :: real
  assumes b: "0 < b" "b < 65536" and d: "d < 65536"
    and P: "\<bar>P - real_of_int (a * c) / real_of_int b\<bar> < 1 / 2 ^ 19" "0 < P"
    and le: "a * c \<le> d * b"
  shows "real_to_int P = Some \<lfloor>P\<rfloor>"
    and "\<lfloor>P\<rfloor> = \<lfloor>real_of_int (a * c) / real_of_int b\<rfloor> \<or> \<lfloor>P\<rfloor> = \<lceil>real_of_int (a * c) / real_of_int b\<rceil> - 1"
    and "0 \<le> \<lfloor>P\<rfloor>" and "\<lfloor>P\<rfloor> \<le> d"
    and "0 \<le> d div 2 - \<lfloor>P\<rfloor> div 2" and "d div 2 - \<lfloor>P\<rfloor> div 2 + \<lfloor>P\<rfloor> \<le> d"
    and "\<bar>2 * (d div 2 - \<lfloor>P\<rfloor> div 2) + \<lfloor>P\<rfloor> - d\<bar> \<le> 1"
proof -
  let ?t = "real_of_int (a * c) / real_of_int b"
  show fl: "\<lfloor>P\<rfloor> = \<lfloor>?t\<rfloor> \<or> \<lfloor>P\<rfloor> = \<lceil>?t\<rceil> - 1"
    using b P(1) by (rule floor_near_fraction)
  have "real_of_int (a * c) \<le> real_of_int (d * b)"
    using le by (simp only: of_int_le_iff)
  then have t: "?t \<le> real_of_int d"
    using b(1) by (simp add: pos_divide_le_eq)
  then have "\<lfloor>?t\<rfloor> \<le> d"
    by (simp add: floor_le_iff)
  moreover have "\<lceil>?t\<rceil> \<le> d"
    using t by (simp add: ceiling_le_iff)
  ultimately show 1: "\<lfloor>P\<rfloor> \<le> d"
    using fl by linarith
  show 0: "0 \<le> \<lfloor>P\<rfloor>"
    using P(2) by simp
  show "0 \<le> d div 2 - \<lfloor>P\<rfloor> div 2" "d div 2 - \<lfloor>P\<rfloor> div 2 + \<lfloor>P\<rfloor> \<le> d"
    "\<bar>2 * (d div 2 - \<lfloor>P\<rfloor> div 2) + \<lfloor>P\<rfloor> - d\<bar> \<le> 1"
    using 0 1 by presburger+
  have "P < real_of_int \<lfloor>P\<rfloor> + 1"
    by linarith
  moreover have "real_of_int \<lfloor>P\<rfloor> \<le> real_of_int d"
    using 1 by (simp only: of_int_le_iff)
  moreover have "real_of_int d < 65536"
    using d by simp
  moreover have "(65536::real) + 1 < 2 ^ 31"
    by simp
  ultimately have "P < 2 ^ 31"
    by linarith
  with P(2) show "real_to_int P = Some \<lfloor>P\<rfloor>"
    by (intro real_to_int_floor) simp_all
qed

lemma getDisplayArea_wide:
  assumes w: "0 < window_w s" "window_w s < 65536" and h: "0 < window_h s" "window_h s < 65536"
    and sw: "0 < screenWidth s" "screenWidth s < 65536"
    and sh: "0 < screenHeight s" "screenHeight s < 65536"
    and wide: "real_of_int (window_h s) < fp_round 53 (- 1074)
        (fp_round 53 (- 1074) (real_of_int (window_w s) / real_of_int (screenWidth s))
           * real_of_int (screenHeight s))"
  defines "Y \<equiv> fp_round 53 (- 1074) (real_of_int (window_h s) / real_of_int (screenHeight s))"
  defines "P \<equiv> fp_round 53 (- 1074) (Y * real_of_int (screenWidth s))"
  shows "getDisplayArea s =
      Inr (\<lparr>rect_x = window_w s div 2 - \<lfloor>P\<rfloor> div 2, rect_y = 0,
            rect_w = \<lfloor>P\<rfloor>, rect_h = window_h s\<rparr>, Finite Y)"
    and "window_h s * screenWidth s \<le> window_w s * screenHeight s"
    and "\<bar>P - real_of_int (window_h s * screenWidth s) / real_of_int (screenHeight s)\<bar> < 1 / 2 ^ 19"
    and "0 < P"
proof -
  note X = d_ratio [OF w sw]
  note Px = d_product [OF w sw sh X(2)]
  note Y = d_ratio [OF h sh, folded Y_def]
  note Py = d_product [OF h sh sw Y(2), folded P_def]
  show le: "window_h s * screenWidth s \<le> window_w s * screenHeight s"
    using letterbox_test(1) [OF sw Px(2) wide] .
  show "\<bar>P - real_of_int (window_h s * screenWidth s) / real_of_int (screenHeight s)\<bar> < 1 / 2 ^ 19"
    and "0 < P"
    using Py by simp_all
  note side = letterbox_side [OF sh w(2) Py(2,3) le]
  have wy: "d_of_int (window_h s) = Finite (real_of_int (window_h s))"
    using h by (rule d_of_int_exact)
  have g: "d_gt (d_mul (Finite (fp_round 53 (- 1074)
               (real_of_int (window_w s) / real_of_int (screenWidth s))))
               (d_of_int (screenHeight s))) (d_of_int (window_h s))"
    unfolding Px(1) wy using wide by simp
  have c: "d_to_int (d_mul (Finite Y) (d_of_int (screenWidth s))) = Some \<lfloor>P\<rfloor>"
    unfolding Py(1) using side(1) by simp
  have i: "int_div (window_w s) 2 = window_w s div 2" "int_div \<lfloor>P\<rfloor> 2 = \<lfloor>P\<rfloor> div 2"
    using w(1) side(3) by (simp_all add: int_div_2)
  show "getDisplayArea s =
      Inr (\<lparr>rect_x = window_w s div 2 - \<lfloor>P\<rfloor> div 2, rect_y = 0,
            rect_w = \<lfloor>P\<rfloor>, rect_h = window_h s\<rparr>, Finite Y)"
    unfolding getDisplayArea_def Let_def X(1) Y(1) using g by (simp add: c i)
qed

lemma getDisplayArea_tall:
  assumes w: "0 < window_w s" "window_w s < 65536" and h: "0 < window_h s" "window_h s < 65536"
    and sw: "0 < screenWidth s" "screenWidth s < 65536"
    and sh: "0 < screenHeight s" "screenHeight s < 65536"
  defines "X \<equiv> fp_round 53 (- 1074) (real_of_int (window_w s) / real_of_int (screenWidth s))"
  defines "P \<equiv> fp_round 53 (- 1074) (X * real_of_int (screenHeight s))"
  assumes tall: "\<not> real_of_int (window_h s) < P"
  shows "getDisplayArea s =
      Inr (\<lparr>rect_x = 0, rect_y = window_h s div 2 - \<lfloor>P\<rfloor> div 2,
            rect_w = window_w s, rect_h = \<lfloor>P\<rfloor>\<rparr>, Finite X)"
    and "window_w s * screenHeight s \<le> window_h s * screenWidth s"
    and "\<bar>P - real_of_int (window_w s * screenHeight s) / real_of_int (screenWidth s)\<bar> < 1 / 2 ^ 19"
    and "0 < P"
proof -
  note X = d_ratio [OF w sw, folded X_def]
  note Px = d_product [OF w sw sh X(2), folded P_def]
  show le: "window_w s * screenHeight s \<le> window_h s * screenWidth s"
    using letterbox_test(2) [OF sw Px(2) tall] .
  show "\<bar>P - real_of_int (window_w s * screenHeight s) / real_of_int (screenWidth s)\<bar> < 1 / 2 ^ 19"
    and "0 < P"
    using Px by simp_all
  note side = letterbox_side [OF sw h(2) Px(2,3) le]
  have wy: "d_of_int (window_h s) = Finite (real_of_int (window_h s))"
    using h by (rule d_of_int_exact)
  have g: "\<not> d_gt (d_mul (Finite X) (d_of_int (screenHeight s))) (d_of_int (window_h s))"
    unfolding Px(1) wy using tall by simp
  have c: "d_to_int (d_mul (Finite X) (d_of_int (screenHeight s))) = Some \<lfloor>P\<rfloor>"
    unfolding Px(1) using side(1) by simp
  have i: "int_div (window_h s) 2 = window_h s div 2" "int_div \<lfloor>P\<rfloor> 2 = \<lfloor>P\<rfloor> div 2"
    using h(1) side(3) by (simp_all add: int_div_2)
  show "getDisplayArea s =
      Inr (\<lparr>rect_x = 0, rect_y = window_h s div 2 - \<lfloor>P\<rfloor> div 2,
            rect_w = window_w s, rect_h = \<lfloor>P\<rfloor>\<rparr>, Finite X)"
    unfolding getDisplayArea_def Let_def X(1) using g by (simp add: c i)
qed

lemma SDL_Rect_eqI:
  fixes r :: SDL_Rect
  shows "rect_x r = x \<Longrightarrow> rect_y r = y \<Longrightarrow> rect_w r = w \<Longrightarrow> rect_h r = h
    \<Longrightarrow> r = \<lparr>rect_x = x, rect_y = y, rect_w = w, rect_h = h\<rparr>"
  by (cases r) simp

text \<open>
  C1 as the code has it, for a window and a virtual screen whose widths and heights are
  positive and below 65536. The scale is the double nearest to the minimum of the two
  ratios window width / screen width and window height / screen height. The rectangle
  spans the window in one direction; its side in the other direction is the double
  product of the scale and the screen's side, cut to a whole number. Each side is the
  exact scaled side cut to a whole number or, when the exact scaled side is a whole
  number, that number or one less. The origin is, in each direction, half the window's
  extent minus half the rectangle's, both halves rounded down. So the rectangle lies
  inside the window and is centred up to one pixel.
\<close>

theorem display_area_letterbox:
  assumes w: "0 < window_w s" "window_w s < 65536" and h: "0 < window_h s" "window_h s < 65536"
    and sw: "0 < screenWidth s" "screenWidth s < 65536"
    and sh: "0 < screenHeight s" "screenHeight s < 65536"
  shows "\<exists>r sc. getDisplayArea s = Inr (r, Finite sc)
    \<and> sc = fp_round 53 (- 1074)
          (min (real_of_int (window_w s) / real_of_int (screenWidth s))
               (real_of_int (window_h s) / real_of_int (screenHeight s)))
    \<and> (rect_w r = window_w s
          \<and> rect_h r = \<lfloor>fp_round 53 (- 1074) (sc * real_of_int (screenHeight s))\<rfloor>
        \<or> rect_h r = window_h s
          \<and> rect_w r = \<lfloor>fp_round 53 (- 1074) (sc * real_of_int (screenWidth s))\<rfloor>)
    \<and> (rect_w r = \<lfloor>min (real_of_int (window_w s) / real_of_int (screenWidth s))
                        (real_of_int (window_h s) / real_of_int (screenHeight s))
                      * real_of_int (screenWidth s)\<rfloor>
        \<or> rect_w r = \<lceil>min (real_of_int (window_w s) / real_of_int (screenWidth s))
                          (real_of_int (window_h s) / real_of_int (screenHeight s))
                        * real_of_int (screenWidth s)\<rceil> - 1)
    \<and> (rect_h r = \<lfloor>min (real_of_int (window_w s) / real_of_int (screenWidth s))
                        (real_of_int (window_h s) / real_of_int (screenHeight s))
                      * real_of_int (screenHeight s)\<rfloor>
        \<or> rect_h r = \<lceil>min (real_of_int (window_w s) / real_of_int (screenWidth s))
                          (real_of_int (window_h s) / real_of_int (screenHeight s))
                        * real_of_int (screenHeight s)\<rceil> - 1)
    \<and> rect_x r = window_w s div 2 - rect_w r div 2
    \<and> rect_y r = window_h s div 2 - rect_h r div 2
    \<and> 0 \<le> rect_x r \<and> rect_x r + rect_w r \<le> window_w s
    \<and> 0 \<le> rect_y r \<and> rect_y r + rect_h r \<le> window_h s
    \<and> \<bar>2 * rect_x r + rect_w r - window_w s\<bar> \<le> 1
    \<and> \<bar>2 * rect_y r + rect_h r - window_h s\<bar> \<le> 1"
proof -
  let ?qx = "real_of_int (window_w s) / real_of_int (screenWidth s)"
  let ?qy = "real_of_int (window_h s) / real_of_int (screenHeight s)"
  let ?X = "fp_round 53 (- 1074) ?qx"
  let ?Px = "fp_round 53 (- 1074) (?X * real_of_int (screenHeight s))"
  have xw: "?qx * real_of_int (screenWidth s) = real_of_int (window_w s)"
    and yh: "?qy * real_of_int (screenHeight s) = real_of_int (window_h s)"
    using sw sh by simp_all
  show ?thesis
  proof (cases "real_of_int (window_h s) < ?Px")
    case True
    let ?Y = "fp_round 53 (- 1074) ?qy"
    let ?P = "fp_round 53 (- 1074) (?Y * real_of_int (screenWidth s))"
    define r where "r = \<lparr>rect_x = window_w s div 2 - \<lfloor>?P\<rfloor> div 2, rect_y = 0,
      rect_w = \<lfloor>?P\<rfloor>, rect_h = window_h s\<rparr>"
    note area = getDisplayArea_wide [OF w h sw sh True]
    note side = letterbox_side [OF sh w(2) area(3,4,2)]
    have m: "min ?qx ?qy = ?qy"
      using area(2) ratio_le_iff [OF sh(1) sw(1), of "window_h s" "window_w s"] by simp
    have t: "real_of_int (window_h s * screenWidth s) / real_of_int (screenHeight s)
        = ?qy * real_of_int (screenWidth s)"
      by simp
    have r: "rect_x r = window_w s div 2 - \<lfloor>?P\<rfloor> div 2" "rect_y r = 0" "rect_w r = \<lfloor>?P\<rfloor>"
      "rect_h r = window_h s"
      by (simp_all add: r_def)
    have 1: "getDisplayArea s = Inr (r, Finite ?Y)"
      using area(1) by (simp only: r_def)
    have 2: "?Y = fp_round 53 (- 1074) (min ?qx ?qy)"
      by (simp only: m)
    have 3: "rect_w r = window_w s
          \<and> rect_h r = \<lfloor>fp_round 53 (- 1074) (?Y * real_of_int (screenHeight s))\<rfloor>
        \<or> rect_h r = window_h s \<and> rect_w r = \<lfloor>?P\<rfloor>"
      by (simp add: r)
    have 4: "rect_w r = \<lfloor>min ?qx ?qy * real_of_int (screenWidth s)\<rfloor>
        \<or> rect_w r = \<lceil>min ?qx ?qy * real_of_int (screenWidth s)\<rceil> - 1"
      using side(2) unfolding t m r .
    have 5: "rect_h r = \<lfloor>min ?qx ?qy * real_of_int (screenHeight s)\<rfloor>
        \<or> rect_h r = \<lceil>min ?qx ?qy * real_of_int (screenHeight s)\<rceil> - 1"
      unfolding m yh r by simp
    have 6: "rect_x r = window_w s div 2 - rect_w r div 2"
      "rect_y r = window_h s div 2 - rect_h r div 2"
      by (simp_all add: r)
    have 7: "0 \<le> rect_x r" "rect_x r + rect_w r \<le> window_w s"
      "\<bar>2 * rect_x r + rect_w r - window_w s\<bar> \<le> 1"
      using side(5,6,7) by (simp_all only: r)
    have 8: "0 \<le> rect_y r" "rect_y r + rect_h r \<le> window_h s"
      "\<bar>2 * rect_y r + rect_h r - window_h s\<bar> \<le> 1"
      by (simp_all add: r)
    from 1 2 3 4 5 6 7 8 show ?thesis
      by (intro exI [of _ r] exI [of _ ?Y] conjI)
  next
    case False
    define r where "r = \<lparr>rect_x = 0, rect_y = window_h s div 2 - \<lfloor>?Px\<rfloor> div 2,
      rect_w = window_w s, rect_h = \<lfloor>?Px\<rfloor>\<rparr>"
    note area = getDisplayArea_tall [OF w h sw sh False]
    note side = letterbox_side [OF sw h(2) area(3,4,2)]
    have m: "min ?qx ?qy = ?qx"
      using area(2) ratio_le_iff [OF sw(1) sh(1), of "window_w s" "window_h s"] by simp
    have t: "real_of_int (window_w s * screenHeight s) / real_of_int (screenWidth s)
        = ?qx * real_of_int (screenHeight s)"
      by simp
    have r: "rect_x r = 0" "rect_y r = window_h s div 2 - \<lfloor>?Px\<rfloor> div 2" "rect_w r = window_w s"
      "rect_h r = \<lfloor>?Px\<rfloor>"
      by (simp_all add: r_def)
    have 1: "getDisplayArea s = Inr (r, Finite ?X)"
      using area(1) by (simp only: r_def)
    have 2: "?X = fp_round 53 (- 1074) (min ?qx ?qy)"
      by (simp only: m)
    have 3: "rect_w r = window_w s \<and> rect_h r = \<lfloor>?Px\<rfloor>
        \<or> rect_h r = window_h s
          \<and> rect_w r = \<lfloor>fp_round 53 (- 1074) (?X * real_of_int (screenWidth s))\<rfloor>"
      by (simp add: r)
    have 4: "rect_w r = \<lfloor>min ?qx ?qy * real_of_int (screenWidth s)\<rfloor>
        \<or> rect_w r = \<lceil>min ?qx ?qy * real_of_int (screenWidth s)\<rceil> - 1"
      unfolding m xw r by simp
    have 5: "rect_h r = \<lfloor>min ?qx ?qy * real_of_int (screenHeight s)\<rfloor>
        \<or> rect_h r = \<lceil>min ?qx ?qy * real_of_int (screenHeight s)\<rceil> - 1"
      using side(2) unfolding t m r .
    have 6: "rect_x r = window_w s div 2 - rect_w r div 2"
      "rect_y r = window_h s div 2 - rect_h r div 2"
      by (simp_all add: r)
    have 7: "0 \<le> rect_x r" "rect_x r + rect_w r \<le> window_w s"
      "\<bar>2 * rect_x r + rect_w r - window_w s\<bar> \<le> 1"
      by (simp_all add: r)
    have 8: "0 \<le> rect_y r" "rect_y r + rect_h r \<le> window_h s"
      "\<bar>2 * rect_y r + rect_h r - window_h s\<bar> \<le> 1"
      using side(5,6,7) by (simp_all only: r)
    from 1 2 3 4 5 6 7 8 show ?thesis
      by (intro exI [of _ r] exI [of _ ?X] conjI)
  qed
qed

text \<open>
  The scenario of C1: a window of 640 by 480 and a screen of 128 by 128 give the scale
  3.75 and the rectangle of origin (80, 0) and size 480 by 480.
\<close>

theorem display_area_letterbox_witness:
  "0 < window_w (initial_state 640 480 128 128) \<and> window_w (initial_state 640 480 128 128) < 65536
   \<and> 0 < window_h (initial_state 640 480 128 128) \<and> window_h (initial_state 640 480 128 128) < 65536
   \<and> 0 < screenWidth (initial_state 640 480 128 128)
   \<and> screenWidth (initial_state 640 480 128 128) < 65536
   \<and> 0 < screenHeight (initial_state 640 480 128 128)
   \<and> screenHeight (initial_state 640 480 128 128) < 65536
   \<and> getDisplayArea (initial_state 640 480 128 128)
        = Inr (\<lparr>rect_x = 80, rect_y = 0, rect_w = 480, rect_h = 480\<rparr>, Finite 3.75)"
proof -
  let ?s = "initial_state 640 480 128 128"
  have f: "window_w ?s = 640" "window_h ?s = 480" "screenWidth ?s = 128" "screenHeight ?s = 128"
    by (simp_all add: initial_state_def)
  have p: "0 < window_w ?s" "window_w ?s < 65536" "0 < window_h ?s" "window_h ?s < 65536"
    "0 < screenWidth ?s" "screenWidth ?s < 65536" "0 < screenHeight ?s" "screenHeight ?s < 65536"
    by (simp_all add: f)
  have mn: "min (real_of_int 640 / real_of_int 128) (real_of_int 480 / real_of_int 128) = 15 / 4"
    by simp
  have e1: "fp_round 53 (- 1074) (15 / 4) = 15 / 4"
    by (rule binary64_exact [of 15 2]) simp_all
  have e2: "fp_round 53 (- 1074) 480 = 480"
    by (rule binary64_exact [of 480 0]) simp_all
  have pr: "(15::real) / 4 * real_of_int 128 = 480"
    by simp
  from display_area_letterbox [OF p] obtain r sc where
    a: "getDisplayArea ?s = Inr (r, Finite sc)"
    and sc: "sc = fp_round 53 (- 1074)
          (min (real_of_int (window_w ?s) / real_of_int (screenWidth ?s))
               (real_of_int (window_h ?s) / real_of_int (screenHeight ?s)))"
    and d: "rect_w r = window_w ?s
          \<and> rect_h r = \<lfloor>fp_round 53 (- 1074) (sc * real_of_int (screenHeight ?s))\<rfloor>
        \<or> rect_h r = window_h ?s
          \<and> rect_w r = \<lfloor>fp_round 53 (- 1074) (sc * real_of_int (screenWidth ?s))\<rfloor>"
    and ww: "rect_w r = \<lfloor>min (real_of_int (window_w ?s) / real_of_int (screenWidth ?s))
                        (real_of_int (window_h ?s) / real_of_int (screenHeight ?s))
                      * real_of_int (screenWidth ?s)\<rfloor>
        \<or> rect_w r = \<lceil>min (real_of_int (window_w ?s) / real_of_int (screenWidth ?s))
                          (real_of_int (window_h ?s) / real_of_int (screenHeight ?s))
                        * real_of_int (screenWidth ?s)\<rceil> - 1"
    and x: "rect_x r = window_w ?s div 2 - rect_w r div 2"
    and y: "rect_y r = window_h ?s div 2 - rect_h r div 2"
    by blast
  from sc have sc': "sc = 15 / 4"
    unfolding f mn e1 .
  from d have d': "rect_w r = 640 \<and> rect_h r = 480 \<or> rect_h r = 480 \<and> rect_w r = 480"
    unfolding f sc' pr e2 by simp
  then have h: "rect_h r = 480"
    by blast
  from ww have "rect_w r = 480 \<or> rect_w r = 479"
    unfolding f mn pr by simp
  with d' have w: "rect_w r = 480"
    by auto
  from y h have y': "rect_y r = 0"
    by (simp add: f)
  from x w have x': "rect_x r = 80"
    by (simp add: f)
  have "r = \<lparr>rect_x = 80, rect_y = 0, rect_w = 480, rect_h = 480\<rparr>"
    using x' y' w h by (rule SDL_Rect_eqI)
  with a sc' have "getDisplayArea ?s
        = Inr (\<lparr>rect_x = 80, rect_y = 0, rect_w = 480, rect_h = 480\<rparr>, Finite 3.75)"
    by simp
  with p show ?thesis
    by blast
qed

text \<open>
  The claim C1 gives the rectangle the size scale times screen size. For a window of 1000
  by 101 and a screen of 64 by 128 the scale is 101/128 and the scaled width is 50.5, each
  step being exact in double arithmetic; the rectangle is 50 wide.
\<close>

theorem display_area_truncation_counterexample:
  "getDisplayArea (initial_state 1000 101 64 128)
     = Inr (\<lparr>rect_x = 475, rect_y = 0, rect_w = 50, rect_h = 101\<rparr>, Finite (101 / 128))
   \<and> min (real_of_int 1000 / real_of_int 64) (real_of_int 101 / real_of_int 128) * real_of_int 64
       = 101 / 2"
proof -
  let ?s = "initial_state 1000 101 64 128"
  have f: "window_w ?s = 1000" "window_h ?s = 101" "screenWidth ?s = 64" "screenHeight ?s = 128"
    by (simp_all add: initial_state_def)
  have p: "0 < window_w ?s" "window_w ?s < 65536" "0 < window_h ?s" "window_h ?s < 65536"
    "0 < screenWidth ?s" "screenWidth ?s < 65536" "0 < screenHeight ?s" "screenHeight ?s < 65536"
    by (simp_all add: f)
  have e1: "fp_round 53 (- 1074) (real_of_int 1000 / real_of_int 64) = 125 / 8"
    using binary64_exact [of 125 3 "real_of_int 1000 / real_of_int 64"] by simp
  have e2: "fp_round 53 (- 1074) (125 / 8 * real_of_int 128) = 2000"
    using binary64_exact [of 2000 0 "125 / 8 * real_of_int 128"] by simp
  have e3: "fp_round 53 (- 1074) (real_of_int 101 / real_of_int 128) = 101 / 128"
    using binary64_exact [of 101 7 "real_of_int 101 / real_of_int 128"] by simp
  have e4: "fp_round 53 (- 1074) (101 / 128 * real_of_int 64) = 101 / 2"
    using binary64_exact [of 101 1 "101 / 128 * real_of_int 64"] by simp
  have wide: "real_of_int (window_h ?s) < fp_round 53 (- 1074)
        (fp_round 53 (- 1074) (real_of_int (window_w ?s) / real_of_int (screenWidth ?s))
           * real_of_int (screenHeight ?s))"
    unfolding f e1 e2 by simp
  have "getDisplayArea ?s
     = Inr (\<lparr>rect_x = 475, rect_y = 0, rect_w = 50, rect_h = 101\<rparr>, Finite (101 / 128))"
    using getDisplayArea_wide(1) [OF p wide] unfolding f e3 e4 by simp
  then show ?thesis
    by simp
qed

text \<open>
  Rounding shows in whole sizes too: for a window of 640 by 480 and a screen of 88 by 88
  the scale is the double next below 480/88, its product with 88 is the double next below
  480, and the rectangle is 479 wide with its left edge at 81.
\<close>

lemma getDisplayArea_rounding_example:
  "getDisplayArea (initial_state 640 480 88 88)
     = Inr (\<lparr>rect_x = 81, rect_y = 0, rect_w = 479, rect_h = 480\<rparr>,
            Finite (6141272219141585 / 2 ^ 50))"
proof -
  let ?s = "initial_state 640 480 88 88"
  have f: "window_w ?s = 640" "window_h ?s = 480" "screenWidth ?s = 88" "screenHeight ?s = 88"
    by (simp_all add: initial_state_def)
  have p: "0 < window_w ?s" "window_w ?s < 65536" "0 < window_h ?s" "window_h ?s < 65536"
    "0 < screenWidth ?s" "screenWidth ?s < 65536" "0 < screenHeight ?s" "screenHeight ?s < 65536"
    by (simp_all add: f)
  note X = d_ratio [OF p(1,2,5,6)]
  note Px = d_product [OF p(1,2,5,6,7,8) X(2)]
  have q: "real_of_int (640 * 88) / real_of_int 88 = real_of_int 640"
    by simp
  have "(1::real) / 2 ^ 19 < 1" "real_of_int 480 + 1 < real_of_int 640"
    by simp_all
  with Px(2) have wide: "real_of_int (window_h ?s) < fp_round 53 (- 1074)
        (fp_round 53 (- 1074) (real_of_int (window_w ?s) / real_of_int (screenWidth ?s))
           * real_of_int (screenHeight ?s))"
    unfolding f q by linarith
  have e3: "fp_round 53 (- 1074) (real_of_int 480 / real_of_int 88)
      = real_of_int 6141272219141585 / 2 ^ 50"
    by (rule binary64_nearest) simp_all
  have e4: "fp_round 53 (- 1074) (real_of_int 6141272219141585 / 2 ^ 50 * real_of_int 88)
      = real_of_int 8444249301319679 / 2 ^ 44"
    by (rule binary64_nearest) simp_all
  have fl: "\<lfloor>real_of_int 8444249301319679 / (2::real) ^ 44\<rfloor> = 479"
    by simp
  show ?thesis
    using getDisplayArea_wide(1) [OF p wide] unfolding f e3 e4 fl by simp
qed

subsection \<open>State bits\<close>

lemma bit_set_state_bit:
  "bit (set_state_bit st b c v) n = (if c \<and> n = b then (v \<and> n < 8) else bit st n)"
  by (auto simp: set_state_bit_def bit_simps dest: bit_imp_le_length)

lemma key_event_simps:
  "ev_type (key_event t k m) = t"
  "key_sym (key_event t k m) = k"
  "key_mod (key_event t k m) = m"
  by (simp_all add: key_event_def blank_event_def)

lemma axis_event_simps:
  "ev_type (axis_event a v) = SDL_JOYAXISMOTION"
  "jaxis_axis (axis_event a v) = a"
  "jaxis_value (axis_event a v) = v"
  by (simp_all add: axis_event_def blank_event_def)

lemma finger_event_simps:
  "ev_type (finger_event t fid fx fy) = t"
  "tfinger_fingerId (finger_event t fid fx fy) = fid"
  "tfinger_x (finger_event t fid fx fy) = fx"
  "tfinger_y (finger_event t fid fx fy) = fy"
  by (simp_all add: finger_event_def blank_event_def)

lemma bit_key_bits:
  "bit (key_bits ev k) n =
    (if key_sym ev \<in> set (keys_of_bit n) then ev_type ev = SDL_KEYDOWN else bit k n)"
  by (cases "key_sym ev") (auto simp: key_bits_def Let_def bit_set_state_bit keys_of_bit_def dest: bit_imp_le_length)

lemma bit_axis_bits:
  "bit (axis_bits ev j) n =
    (if jaxis_axis ev = 0 \<and> n = 0 then sint (jaxis_value ev) < - 1500
     else if jaxis_axis ev = 0 \<and> n = 1 then sint (jaxis_value ev) > 1500
     else if jaxis_axis ev = 1 \<and> n = 2 then sint (jaxis_value ev) < - 1500
     else if jaxis_axis ev = 1 \<and> n = 3 then sint (jaxis_value ev) > 1500
     else bit j n)"
  by (simp add: axis_bits_def Let_def bit_set_state_bit)

lemma axis_bits_other_axis:
  "jaxis_axis ev \<noteq> 0 \<Longrightarrow> jaxis_axis ev \<noteq> 1 \<Longrightarrow> axis_bits ev j = j"
  by (simp add: axis_bits_def set_state_bit_def)

lemma process_axis_event:
  "ev_type ev = SDL_JOYAXISMOTION \<Longrightarrow>
     INP_ProcessInputEvents ev s = Inr (True, s\<lparr>joyState := axis_bits ev (joyState s)\<rparr>)"
  by (simp add: INP_ProcessInputEvents_def)

lemma bit_INP_GetInputState:
  "bit (INP_GetInputState s) n =
     (bit (keyState s) n \<or> bit (joyState s) n \<or> bit (hatState s) n \<or> bit (simState s) n)"
  by (auto simp: INP_GetInputState_def bit_simps)

lemma process_key_up:
  "INP_ProcessInputEvents (key_event SDL_KEYUP k m) s =
     Inr (True, s\<lparr>keyState := key_bits (key_event SDL_KEYUP k m) (keyState s)\<rparr>)"
  by (simp add: INP_ProcessInputEvents_def key_event_simps)

subsection \<open>The combined input mask and the start of a frame\<close>

text \<open>
  C4: \<open>INP_GetInputState\<close> is the bitwise OR of the keyboard, joystick, hat and simulated
  masks. \<open>HAL_StartFrame\<close> sets the simulated mask to zero and the reload flag to false and
  changes nothing else, in particular not the keyboard, joystick and hat masks and the
  touch table. If bit 2 is set in the keyboard mask and in the simulated mask, bit 2 of
  the combined mask is set; after the key-up event of the UP key the keyboard bit is
  clear and the combined bit is still set, and after \<open>HAL_StartFrame\<close> the combined bit
  is what the joystick and hat masks give.
\<close>

theorem input_state_combination:
  "INP_GetInputState s = keyState s OR joyState s OR hatState s OR simState s
   \<and> (\<forall>n. bit (INP_GetInputState s) n =
         (bit (keyState s) n \<or> bit (joyState s) n \<or> bit (hatState s) n \<or> bit (simState s) n))
   \<and> HAL_StartFrame s = s\<lparr>simState := 0, reload_requested := False\<rparr>
   \<and> simState (HAL_StartFrame s) = 0 \<and> \<not> reload_requested (HAL_StartFrame s)
   \<and> keyState (HAL_StartFrame s) = keyState s \<and> joyState (HAL_StartFrame s) = joyState s
   \<and> hatState (HAL_StartFrame s) = hatState s \<and> touchState (HAL_StartFrame s) = touchState s
   \<and> (bit (keyState s) 2 \<and> bit (simState s) 2 \<longrightarrow> bit (INP_GetInputState s) 2)
   \<and> (bit (simState s) 2 \<longrightarrow>
        (\<exists>s'. INP_ProcessInputEvents (key_event SDL_KEYUP SDLK_UP m) s = Inr (True, s')
           \<and> \<not> bit (keyState s') 2 \<and> simState s' = simState s
           \<and> bit (INP_GetInputState s') 2
           \<and> bit (INP_GetInputState (HAL_StartFrame s')) 2
               = (bit (joyState s) 2 \<or> bit (hatState s) 2)))"
proof (intro conjI allI impI)
  assume sim: "bit (simState s) 2"
  let ?s' = "s\<lparr>keyState := key_bits (key_event SDL_KEYUP SDLK_UP m) (keyState s)\<rparr>"
  have up: "\<not> bit (keyState ?s') 2"
    by (simp add: bit_key_bits key_event_simps keys_of_bit_def)
  have "INP_ProcessInputEvents (key_event SDL_KEYUP SDLK_UP m) s = Inr (True, ?s')"
    by (rule process_key_up)
  moreover have "simState ?s' = simState s"
    by simp
  moreover have "bit (INP_GetInputState ?s') 2"
    using sim by (simp add: bit_INP_GetInputState)
  moreover have "bit (INP_GetInputState (HAL_StartFrame ?s')) 2
                   = (bit (joyState s) 2 \<or> bit (hatState s) 2)"
    using up by (simp add: bit_INP_GetInputState HAL_StartFrame_def)
  ultimately show "\<exists>s'. INP_ProcessInputEvents (key_event SDL_KEYUP SDLK_UP m) s = Inr (True, s')
           \<and> \<not> bit (keyState s') 2 \<and> simState s' = simState s
           \<and> bit (INP_GetInputState s') 2
           \<and> bit (INP_GetInputState (HAL_StartFrame s')) 2
               = (bit (joyState s) 2 \<or> bit (hatState s) 2)"
    using up by blast
qed (simp_all add: INP_GetInputState_def HAL_StartFrame_def bit_simps)

text \<open>
  The scenario of C4 at a state whose keyboard and simulated masks are both 4 and whose
  joystick and hat masks are 0: after the key-up event the combined bit 2 is still set,
  and after \<open>HAL_StartFrame\<close> it is clear.
\<close>

theorem input_state_combination_witness:
  "bit (keyState ((initial_state 640 480 128 128)\<lparr>keyState := 4, simState := 4\<rparr>)) 2
   \<and> bit (simState ((initial_state 640 480 128 128)\<lparr>keyState := 4, simState := 4\<rparr>)) 2
   \<and> bit (INP_GetInputState ((initial_state 640 480 128 128)\<lparr>keyState := 4, simState := 4\<rparr>)) 2
   \<and> (\<exists>s'. INP_ProcessInputEvents (key_event SDL_KEYUP SDLK_UP 0)
              ((initial_state 640 480 128 128)\<lparr>keyState := 4, simState := 4\<rparr>) = Inr (True, s')
         \<and> \<not> bit (keyState s') 2 \<and> bit (INP_GetInputState s') 2
         \<and> \<not> bit (INP_GetInputState (HAL_StartFrame s')) 2)"
proof -
  let ?s = "(initial_state 640 480 128 128)\<lparr>keyState := 4, simState := 4\<rparr>"
  have k: "bit (keyState ?s) 2" and m: "bit (simState ?s) 2"
    by (simp_all add: bit_numeral_simps)
  have j: "\<not> bit (joyState ?s) 2" and h: "\<not> bit (hatState ?s) 2"
    by (simp_all add: initial_state_def)
  from input_state_combination [of ?s 0] k m j h show ?thesis
    by blast
qed

subsection \<open>Joystick axes\<close>

text \<open>
  C7 as the code has it: a joystick-axis event on axis 0 sets bit 0 of the joystick mask
  exactly when the value is below -1500 and bit 1 exactly when it is above 1500, so a
  value whose magnitude is at most 1500 clears both, the two bits are never both set
  after the event, and no other bit changes; the same holds for axis 1 with bits 2 and 3.
  An event on another axis leaves the mask as it is. Nothing but the joystick mask
  changes, and the call returns true. If neither pair of opposite bits was set together
  before the event, neither is after it, whatever the axis.
\<close>

theorem joy_axis_deadzone:
  assumes "ev_type ev = SDL_JOYAXISMOTION"
  shows "\<exists>j'. INP_ProcessInputEvents ev s = Inr (True, s\<lparr>joyState := j'\<rparr>)
    \<and> (jaxis_axis ev = 0 \<longrightarrow>
          bit j' 0 = (sint (jaxis_value ev) < - 1500)
        \<and> bit j' 1 = (sint (jaxis_value ev) > 1500)
        \<and> (\<bar>sint (jaxis_value ev)\<bar> \<le> 1500 \<longrightarrow> \<not> bit j' 0 \<and> \<not> bit j' 1)
        \<and> \<not> (bit j' 0 \<and> bit j' 1)
        \<and> (\<forall>n. n \<noteq> 0 \<and> n \<noteq> 1 \<longrightarrow> bit j' n = bit (joyState s) n))
    \<and> (jaxis_axis ev = 1 \<longrightarrow>
          bit j' 2 = (sint (jaxis_value ev) < - 1500)
        \<and> bit j' 3 = (sint (jaxis_value ev) > 1500)
        \<and> (\<bar>sint (jaxis_value ev)\<bar> \<le> 1500 \<longrightarrow> \<not> bit j' 2 \<and> \<not> bit j' 3)
        \<and> \<not> (bit j' 2 \<and> bit j' 3)
        \<and> (\<forall>n. n \<noteq> 2 \<and> n \<noteq> 3 \<longrightarrow> bit j' n = bit (joyState s) n))
    \<and> (jaxis_axis ev \<noteq> 0 \<and> jaxis_axis ev \<noteq> 1 \<longrightarrow> j' = joyState s)
    \<and> (\<not> (bit (joyState s) 0 \<and> bit (joyState s) 1) \<and> \<not> (bit (joyState s) 2 \<and> bit (joyState s) 3) \<longrightarrow>
          \<not> (bit j' 0 \<and> bit j' 1) \<and> \<not> (bit j' 2 \<and> bit j' 3))"
proof (intro exI conjI)
  let ?j = "axis_bits ev (joyState s)"
  show "INP_ProcessInputEvents ev s = Inr (True, s\<lparr>joyState := ?j\<rparr>)"
    using assms by (rule process_axis_event)
  show "jaxis_axis ev = 0 \<longrightarrow>
          bit ?j 0 = (sint (jaxis_value ev) < - 1500)
        \<and> bit ?j 1 = (sint (jaxis_value ev) > 1500)
        \<and> (\<bar>sint (jaxis_value ev)\<bar> \<le> 1500 \<longrightarrow> \<not> bit ?j 0 \<and> \<not> bit ?j 1)
        \<and> \<not> (bit ?j 0 \<and> bit ?j 1)
        \<and> (\<forall>n. n \<noteq> 0 \<and> n \<noteq> 1 \<longrightarrow> bit ?j n = bit (joyState s) n)"
    by (auto simp: bit_axis_bits)
  show "jaxis_axis ev = 1 \<longrightarrow>
          bit ?j 2 = (sint (jaxis_value ev) < - 1500)
        \<and> bit ?j 3 = (sint (jaxis_value ev) > 1500)
        \<and> (\<bar>sint (jaxis_value ev)\<bar> \<le> 1500 \<longrightarrow> \<not> bit ?j 2 \<and> \<not> bit ?j 3)
        \<and> \<not> (bit ?j 2 \<and> bit ?j 3)
        \<and> (\<forall>n. n \<noteq> 2 \<and> n \<noteq> 3 \<longrightarrow> bit ?j n = bit (joyState s) n)"
    by (auto simp: bit_axis_bits)
  show "jaxis_axis ev \<noteq> 0 \<and> jaxis_axis ev \<noteq> 1 \<longrightarrow> ?j = joyState s"
    by (simp add: axis_bits_other_axis)
  show "\<not> (bit (joyState s) 0 \<and> bit (joyState s) 1) \<and> \<not> (bit (joyState s) 2 \<and> bit (joyState s) 3) \<longrightarrow>
          \<not> (bit ?j 0 \<and> bit ?j 1) \<and> \<not> (bit ?j 2 \<and> bit ?j 3)"
    by (auto simp: bit_axis_bits)
qed

text \<open>
  The scenario of C7: from a state whose joystick mask has bit 1 set, the value -2000 on
  axis 0 sets bit 0 and clears bit 1, and the value 0 that follows clears bit 0.
\<close>

theorem joy_axis_deadzone_witness:
  "ev_type (axis_event 0 (- 2000)) = SDL_JOYAXISMOTION \<and>
   (\<exists>s1 s2. INP_ProcessInputEvents (axis_event 0 (- 2000))
               ((initial_state 640 480 128 128)\<lparr>joyState := 2\<rparr>) = Inr (True, s1)
      \<and> bit (joyState s1) 0 \<and> \<not> bit (joyState s1) 1
      \<and> INP_ProcessInputEvents (axis_event 0 0) s1 = Inr (True, s2)
      \<and> \<not> bit (joyState s2) 0 \<and> \<not> bit (joyState s2) 1)"
proof -
  let ?s0 = "(initial_state 640 480 128 128)\<lparr>joyState := 2\<rparr>"
  have t1: "ev_type (axis_event 0 (- 2000)) = SDL_JOYAXISMOTION"
    by (simp add: axis_event_simps)
  have t2: "ev_type (axis_event 0 0) = SDL_JOYAXISMOTION"
    by (simp add: axis_event_simps)
  from joy_axis_deadzone [OF t1, of ?s0] obtain j1 where
    a: "INP_ProcessInputEvents (axis_event 0 (- 2000)) ?s0 = Inr (True, ?s0\<lparr>joyState := j1\<rparr>)"
    and b: "bit j1 0" "\<not> bit j1 1"
    by (auto simp: axis_event_simps)
  from joy_axis_deadzone [OF t2, of "?s0\<lparr>joyState := j1\<rparr>"] obtain j2 where
    c: "INP_ProcessInputEvents (axis_event 0 0) (?s0\<lparr>joyState := j1\<rparr>) = Inr (True, ?s0\<lparr>joyState := j2\<rparr>)"
    and d: "\<not> bit j2 0" "\<not> bit j2 1"
    by (auto simp: axis_event_simps)
  show ?thesis
    using t1 a b c d by auto
qed

text \<open>
  The claim C7 speaks of every joystick-axis event. An event on axis 2 whose value
  -30000 is far beyond the deadzone sets no bit: the joystick mask stays 0 and the state
  is unchanged.
\<close>

theorem joy_axis_other_axis_counterexample:
  "ev_type (axis_event 2 (- 30000)) = SDL_JOYAXISMOTION
   \<and> sint (jaxis_value (axis_event 2 (- 30000))) = - 30000
   \<and> joyState (initial_state 640 480 128 128) = 0
   \<and> INP_ProcessInputEvents (axis_event 2 (- 30000)) (initial_state 640 480 128 128)
       = Inr (True, initial_state 640 480 128 128)"
proof -
  let ?ev = "axis_event 2 (- 30000)"
  let ?s = "initial_state 640 480 128 128"
  have t: "ev_type ?ev = SDL_JOYAXISMOTION"
    by (simp add: axis_event_simps)
  have v: "sint (jaxis_value ?ev) = - 30000"
    by (simp add: axis_event_simps)
  have j: "joyState ?s = 0"
    by (simp add: initial_state_def)
  have "axis_bits ?ev (joyState ?s) = joyState ?s"
    by (rule axis_bits_other_axis) (simp_all add: axis_event_simps)
  then have "INP_ProcessInputEvents ?ev ?s = Inr (True, ?s)"
    by (simp add: process_axis_event [OF t])
  with t v j show ?thesis
    by blast
qed

subsection \<open>Reading a touch slot\<close>

lemma INP_GetTouchInfo_guard_never:
  "INP_GetTouchInfo s idx =
     (if 0 \<le> idx \<and> nat idx < length (touchState s) then Inr (touchState s ! nat idx)
      else Inl ArrayOutOfBounds)"
  by (auto simp: INP_GetTouchInfo_def)

text \<open>
  C10: the claim is that \<open>INP_GetTouchInfo\<close> answers the default \<open>TouchInfo\<close> for an index
  below 0 or from 8 on. The guard of the function is the conjunction of the two
  comparisons, which no index satisfies, so the table is read at index 8 and at index -1,
  outside its eight slots.
\<close>

theorem INP_GetTouchInfo_out_of_range:
  "INP_GetTouchInfo (initial_state 640 480 128 128) 8 = Inl ArrayOutOfBounds
   \<and> INP_GetTouchInfo (initial_state 640 480 128 128) (- 1) = Inl ArrayOutOfBounds"
  by (simp add: INP_GetTouchInfo_def initial_state_def touchState_size_def)

subsection \<open>Touch points\<close>

lemma flag_bits:
  fixes st :: "32 word"
  shows "st AND Pressed \<noteq> 0 \<longleftrightarrow> bit st 0"
    and "st AND JustPressed \<noteq> 0 \<longleftrightarrow> bit st 1"
    and "st AND JustReleased \<noteq> 0 \<longleftrightarrow> bit st 2"
    and "st AND Pressed = 0 \<longleftrightarrow> \<not> bit st 0"
    and "st AND JustPressed = 0 \<longleftrightarrow> \<not> bit st 1"
    and "st AND JustReleased = 0 \<longleftrightarrow> \<not> bit st 2"
  using and_exp_eq_0_iff_not_bit [of st 0] and_exp_eq_0_iff_not_bit [of st 1]
    and_exp_eq_0_iff_not_bit [of st 2]
  by (simp_all add: Pressed_def JustPressed_def JustReleased_def)

lemma bit_flags:
  "bit Pressed n \<longleftrightarrow> n = 0"
  "bit JustPressed n \<longleftrightarrow> n = 1"
  "bit JustReleased n \<longleftrightarrow> n = 2"
    apply (simp_all add: Pressed_def JustPressed_def JustReleased_def bit_simps)
  using bit_exp_iff[where 'a="32 word" and m = 1 and n = n]  bit_exp_iff[where 'a="32 word" and m = 2 and n = n]
  apply (auto simp: bit_simps)
  done

lemma bit_touch_flags:
  "bit (touch_flags t st) n \<longleftrightarrow>
     bit st n \<or> (t = SDL_FINGERDOWN \<and> (n = 0 \<or> n = 1)) \<or> (t = SDL_FINGERMOTION \<and> n = 0)
       \<or> (t = SDL_FINGERUP \<and> n = 2)"
  by (cases t) (auto simp: touch_flags_def Let_def bit_simps bit_flags)

lemma flush_slot_state:
  "ti_state (flush_slot t) =
     (if ti_state t AND JustReleased \<noteq> 0 then TouchInfo_None else ti_state t AND NOT JustPressed)"
  "ti_x (flush_slot t) = ti_x t"
  "ti_y (flush_slot t) = ti_y t"
proof -
  have a: "(ti_state t AND NOT JustPressed) AND JustReleased \<noteq> 0 \<longleftrightarrow> ti_state t AND JustReleased \<noteq> 0"
    by (simp add: flag_bits bit_simps bit_flags)
  have b: "ti_state t AND JustPressed = 0 \<Longrightarrow> ti_state t AND NOT JustPressed = ti_state t"
    by (rule bit_word_eqI) (auto simp: flag_bits bit_simps bit_flags)
  show "ti_state (flush_slot t) =
     (if ti_state t AND JustReleased \<noteq> 0 then TouchInfo_None else ti_state t AND NOT JustPressed)"
    using a b by (auto simp: flush_slot_def Let_def)
  show "ti_x (flush_slot t) = ti_x t" "ti_y (flush_slot t) = ti_y t"
    by (simp_all add: flush_slot_def Let_def)
qed

lemma bit_flush_slot:
  "bit (ti_state (flush_slot t)) n \<longleftrightarrow> bit (ti_state t) n \<and> n \<noteq> 1 \<and> \<not> bit (ti_state t) 2"
  by (auto simp: flush_slot_state flag_bits bit_simps bit_flags TouchInfo_None_def
      dest: bit_imp_le_length)

lemma finger_index:
  "0 \<le> fid \<Longrightarrow> fid < 8 \<Longrightarrow> sint (word_of_int fid :: 32 word) = fid"
  by (simp add: signed_of_int signed_take_bit_int_eq_self)

text \<open>What a call of processTouchEvent that returns does to the table.\<close>

lemma processTouchEvent_update:
  assumes "processTouchEvent ev s = Inr s'" and "tfinger_fingerId ev < int touchState_size"
  shows "\<exists>idx vx vy. idx < length (touchState s)
          \<and> int idx = sint (word_of_int (tfinger_fingerId ev) :: 32 word)
          \<and> touch_position ev s = Inr (vx, vy)
          \<and> s' = s\<lparr>touchState := (touchState s)[idx := (touchState s ! idx)\<lparr>ti_x := vx, ti_y := vy,
                  ti_state := touch_flags (ev_type ev) (ti_state (touchState s ! idx))\<rparr>]\<rparr>"
proof -
  define idx where "idx = sint (word_of_int (tfinger_fingerId ev) :: 32 word)"
  from assms have ok: "0 \<le> idx" "nat idx < length (touchState s)"
    by (auto simp: processTouchEvent_def idx_def Let_def split: if_splits)
  from assms ok obtain vx vy where v: "touch_position ev s = Inr (vx, vy)"
    by (cases "touch_position ev s")
      (auto simp: processTouchEvent_def idx_def [symmetric] Let_def)
  from assms ok v have "s' = s\<lparr>touchState := (touchState s)[nat idx :=
      (touchState s ! nat idx)\<lparr>ti_x := vx, ti_y := vy,
         ti_state := touch_flags (ev_type ev) (ti_state (touchState s ! nat idx))\<rparr>]\<rparr>"
    by (simp add: processTouchEvent_def idx_def [symmetric] Let_def)
  with ok v show ?thesis
    by (intro exI [of _ "nat idx"] exI [of _ vx] exI [of _ vy]) (simp add: idx_def)
qed

text \<open>What a call of \<open>processTouchEvent\<close> that returns does to the flags of the table.\<close>

lemma processTouchEvent_table:
  assumes "processTouchEvent ev s = Inr s'"
  shows "length (touchState s') = length (touchState s)
          \<and> (\<forall>j < length (touchState s). \<forall>n. bit (ti_state (touchState s' ! j)) n \<longrightarrow>
                bit (ti_state (touchState s ! j)) n
                \<or> (ev_type ev = SDL_FINGERDOWN \<and> (n = 0 \<or> n = 1))
                \<or> (ev_type ev = SDL_FINGERMOTION \<and> n = 0)
                \<or> (ev_type ev = SDL_FINGERUP \<and> n = 2))
          \<and> (\<forall>j < length (touchState s). \<forall>n. bit (ti_state (touchState s ! j)) n \<longrightarrow>
                bit (ti_state (touchState s' ! j)) n)"
proof (cases "tfinger_fingerId ev < int touchState_size")
  case False
  with assms have "s' = s"
    by (simp add: processTouchEvent_def)
  then show ?thesis
    by simp
next
  case True
  from processTouchEvent_update [OF assms True] obtain idx vx vy where
    s': "s' = s\<lparr>touchState := (touchState s)[idx := (touchState s ! idx)\<lparr>ti_x := vx, ti_y := vy,
                  ti_state := touch_flags (ev_type ev) (ti_state (touchState s ! idx))\<rparr>]\<rparr>"
    by blast
  have upd: "ti_state (touchState s' ! j) =
      (if j = idx then touch_flags (ev_type ev) (ti_state (touchState s ! j))
       else ti_state (touchState s ! j))" if "j < length (touchState s)" for j
    using that by (simp add: s' nth_list_update)
  have len: "length (touchState s') = length (touchState s)"
    by (simp add: s')
  show ?thesis
    by (simp add: len upd bit_touch_flags)
qed

lemma INP_ProcessInputEvents_table:
  assumes "INP_ProcessInputEvents ev s = Inr (c, s')"
  shows "length (touchState s') = length (touchState s)
          \<and> (\<forall>j < length (touchState s). \<forall>n. bit (ti_state (touchState s' ! j)) n \<longrightarrow>
                bit (ti_state (touchState s ! j)) n
                \<or> (ev_type ev = SDL_FINGERDOWN \<and> (n = 0 \<or> n = 1))
                \<or> (ev_type ev = SDL_FINGERMOTION \<and> n = 0)
                \<or> (ev_type ev = SDL_FINGERUP \<and> n = 2))
          \<and> (\<forall>j < length (touchState s). \<forall>n. bit (ti_state (touchState s ! j)) n \<longrightarrow>
                bit (ti_state (touchState s' ! j)) n)"
proof (cases "ev_type ev = SDL_FINGERDOWN \<or> ev_type ev = SDL_FINGERMOTION \<or> ev_type ev = SDL_FINGERUP")
  case True
  with assms have "processTouchEvent ev s = Inr s'"
    by (auto simp: INP_ProcessInputEvents_def split: sum.splits)
  then show ?thesis
    by (rule processTouchEvent_table)
next
  case False
  with assms have "touchState s' = touchState s"
    by (auto simp: INP_ProcessInputEvents_def GFX_ToggleFullScreen_def split: if_splits)
  then show ?thesis
    by simp
qed

lemma apply_events_table:
  "apply_events evs s = Inr s' \<Longrightarrow>
     length (touchState s') = length (touchState s)
     \<and> (\<forall>j < length (touchState s).
          (\<forall>n. bit (ti_state (touchState s ! j)) n \<longrightarrow> bit (ti_state (touchState s' ! j)) n)
        \<and> (bit (ti_state (touchState s' ! j)) 1 \<longrightarrow>
             bit (ti_state (touchState s ! j)) 1 \<or> SDL_FINGERDOWN \<in> ev_type ` set evs)
        \<and> (bit (ti_state (touchState s' ! j)) 2 \<longrightarrow>
             bit (ti_state (touchState s ! j)) 2 \<or> SDL_FINGERUP \<in> ev_type ` set evs))"
proof (induction evs arbitrary: s)
  case Nil
  then show ?case by simp
next
  case (Cons e es)
  from Cons.prems obtain c s1 where
    step: "INP_ProcessInputEvents e s = Inr (c, s1)" and rest: "apply_events es s1 = Inr s'"
    by (auto split: sum.splits)
  note a = INP_ProcessInputEvents_table [OF step]
  note b = Cons.IH [OF rest]
  from a b have len: "length (touchState s') = length (touchState s)"
    by simp
  show ?case
  proof (intro conjI allI impI)
    show "length (touchState s') = length (touchState s)" by (rule len)
  next
    fix j n assume "j < length (touchState s)" "bit (ti_state (touchState s ! j)) n"
    then show "bit (ti_state (touchState s' ! j)) n"
      using a b by simp
  next
    fix j assume j: "j < length (touchState s)" and "bit (ti_state (touchState s' ! j)) 1"
    with a b have "bit (ti_state (touchState s1 ! j)) 1 \<or> SDL_FINGERDOWN \<in> ev_type ` set es"
      by simp
    moreover from a j have "bit (ti_state (touchState s1 ! j)) 1 \<longrightarrow>
        bit (ti_state (touchState s ! j)) 1 \<or> ev_type e = SDL_FINGERDOWN"
      by fastforce
    ultimately show "bit (ti_state (touchState s ! j)) 1 \<or> SDL_FINGERDOWN \<in> ev_type ` set (e # es)"
      by auto
  next
    fix j assume j: "j < length (touchState s)" and "bit (ti_state (touchState s' ! j)) 2"
    with a b have "bit (ti_state (touchState s1 ! j)) 2 \<or> SDL_FINGERUP \<in> ev_type ` set es"
      by simp
    moreover from a j have "bit (ti_state (touchState s1 ! j)) 2 \<longrightarrow>
        bit (ti_state (touchState s ! j)) 2 \<or> ev_type e = SDL_FINGERUP"
      by fastforce
    ultimately show "bit (ti_state (touchState s ! j)) 2 \<or> SDL_FINGERUP \<in> ev_type ` set (e # es)"
      by auto
  qed
qed

lemma HAL_EndFrame_slot:
  "i < length (touchState s) \<Longrightarrow> touchState (HAL_EndFrame s) ! i = flush_slot (touchState s ! i)"
  by (simp add: HAL_EndFrame_def flushTouchEvents_def)

lemma HAL_EndFrame_length:
  "length (touchState (HAL_EndFrame s)) = length (touchState s)"
  by (simp add: HAL_EndFrame_def flushTouchEvents_def)

lemma run_frames_pressed:
  "run_frames fs s = Inr s2 \<Longrightarrow> i < length (touchState s) \<Longrightarrow>
   \<forall>evs \<in> set fs. SDL_FINGERUP \<notin> ev_type ` set evs \<Longrightarrow>
   bit (ti_state (touchState s ! i)) 0 \<Longrightarrow> \<not> bit (ti_state (touchState s ! i)) 2 \<Longrightarrow>
   i < length (touchState s2) \<and> bit (ti_state (touchState s2 ! i)) 0
     \<and> \<not> bit (ti_state (touchState s2 ! i)) 2"
proof (induction fs arbitrary: s)
  case Nil
  then show ?case by simp
next
  case (Cons evs fs)
  from Cons.prems(1) obtain s1 where
    run: "apply_events evs (HAL_StartFrame s) = Inr s1"
    and rest: "run_frames fs (HAL_EndFrame s1) = Inr s2"
    by (auto split: sum.splits)
  have st: "touchState (HAL_StartFrame s) = touchState s"
    by (simp add: HAL_StartFrame_def)
  from Cons.prems(2) have i0: "i < length (touchState (HAL_StartFrame s))"
    by (simp add: st)
  note tab = apply_events_table [OF run, THEN conjunct2, rule_format, OF i0]
  from apply_events_table [OF run] Cons.prems(2) have i1: "i < length (touchState s1)"
    by (simp add: st)
  from tab Cons.prems have p1: "bit (ti_state (touchState s1 ! i)) 0"
    and r1: "\<not> bit (ti_state (touchState s1 ! i)) 2"
    by (auto simp: st)
  have i2: "i < length (touchState (HAL_EndFrame s1))"
    using i1 by (simp add: HAL_EndFrame_length)
  have p2: "bit (ti_state (touchState (HAL_EndFrame s1) ! i)) 0"
    and r2: "\<not> bit (ti_state (touchState (HAL_EndFrame s1) ! i)) 2"
    using p1 r1 by (simp_all add: HAL_EndFrame_slot [OF i1] bit_flush_slot)
  from Cons.prems(3) have "\<forall>evs \<in> set fs. SDL_FINGERUP \<notin> ev_type ` set evs"
    by simp
  from Cons.IH [OF rest i2 this p2 r2] show ?case .
qed


lemma processTouchEvent_in_range:
  assumes fid: "0 \<le> tfinger_fingerId ev" "tfinger_fingerId ev < 8"
    and len: "length (touchState s) = 8"
  shows "processTouchEvent ev s =
    (case touch_position ev s of
       Inl f \<Rightarrow> Inl f
     | Inr (vx, vy) \<Rightarrow>
         Inr (s\<lparr>touchState := (touchState s)[nat (tfinger_fingerId ev) :=
           (touchState s ! nat (tfinger_fingerId ev))\<lparr>ti_x := vx, ti_y := vy,
             ti_state := touch_flags (ev_type ev)
               (ti_state (touchState s ! nat (tfinger_fingerId ev)))\<rparr>]\<rparr>))"
proof -
  have idx: "sint (word_of_int (tfinger_fingerId ev) :: 32 word) = tfinger_fingerId ev"
    using fid by (simp add: finger_index)
  have n: "nat (tfinger_fingerId ev) < 8"
    using fid by linarith
  show ?thesis
    unfolding processTouchEvent_def idx Let_def
    using fid len n by (simp add: touchState_size_def)
qed

lemma process_finger_event:
  assumes "ev_type ev = SDL_FINGERDOWN \<or> ev_type ev = SDL_FINGERMOTION \<or> ev_type ev = SDL_FINGERUP"
  shows "INP_ProcessInputEvents ev s =
     (case processTouchEvent ev s of Inl f \<Rightarrow> Inl f | Inr s' \<Rightarrow> Inr (True, s'))"
  using assms unfolding INP_ProcessInputEvents_def by (elim disjE) simp_all

lemma touch_flags_or:
  assumes "t = SDL_FINGERDOWN \<or> t = SDL_FINGERMOTION \<or> t = SDL_FINGERUP"
  shows "touch_flags t st = st OR
                   (if t = SDL_FINGERDOWN then JustPressed OR Pressed
                    else if t = SDL_FINGERMOTION then Pressed else JustReleased)"
  using assms unfolding touch_flags_def Let_def by (elim disjE) simp_all

text \<open>
  C2: for every slot of the touch table, \<open>HAL_EndFrame\<close> leaves the position, clears
  JustPressed, sets the state to None when JustReleased was set, and otherwise only
  removes JustPressed, so Pressed stays as it was; nothing but the touch table changes.
  In the frame that follows, whatever events are handled, JustPressed stays absent as
  long as none of them is a finger-down event (motion events in particular), Pressed
  stays set if it was set without JustReleased, and with no event at all a slot that had
  JustReleased is None. Over any number of further frames without a finger-up event
  Pressed stays set.
\<close>

theorem touch_edges_last_one_frame:
  assumes "i < length (touchState s)"
  shows "HAL_EndFrame s = s\<lparr>touchState := touchState (HAL_EndFrame s)\<rparr>
    \<and> ti_x (touchState (HAL_EndFrame s) ! i) = ti_x (touchState s ! i)
    \<and> ti_y (touchState (HAL_EndFrame s) ! i) = ti_y (touchState s ! i)
    \<and> ti_state (touchState (HAL_EndFrame s) ! i) AND JustPressed = 0
    \<and> (ti_state (touchState s ! i) AND JustReleased \<noteq> 0 \<longrightarrow>
         ti_state (touchState (HAL_EndFrame s) ! i) = TouchInfo_None)
    \<and> (ti_state (touchState s ! i) AND JustReleased = 0 \<longrightarrow>
         ti_state (touchState (HAL_EndFrame s) ! i) = ti_state (touchState s ! i) AND NOT JustPressed
       \<and> ti_state (touchState (HAL_EndFrame s) ! i) AND Pressed = ti_state (touchState s ! i) AND Pressed)
    \<and> (\<forall>evs s2. apply_events evs (HAL_EndFrame s) = Inr s2 \<longrightarrow>
          (SDL_FINGERDOWN \<notin> ev_type ` set evs \<longrightarrow>
             ti_state (touchState s2 ! i) AND JustPressed = 0)
        \<and> (ti_state (touchState s ! i) AND Pressed \<noteq> 0
             \<and> ti_state (touchState s ! i) AND JustReleased = 0 \<longrightarrow>
             ti_state (touchState s2 ! i) AND Pressed \<noteq> 0)
        \<and> (ti_state (touchState s ! i) AND JustReleased \<noteq> 0 \<and> evs = [] \<longrightarrow>
             ti_state (touchState s2 ! i) = TouchInfo_None))
    \<and> (\<forall>fs s2. run_frames fs (HAL_EndFrame s) = Inr s2
          \<and> (\<forall>evs \<in> set fs. SDL_FINGERUP \<notin> ev_type ` set evs)
          \<and> ti_state (touchState s ! i) AND Pressed \<noteq> 0
          \<and> ti_state (touchState s ! i) AND JustReleased = 0 \<longrightarrow>
          ti_state (touchState s2 ! i) AND Pressed \<noteq> 0)"
proof -
  let ?t = "touchState s ! i" and ?t' = "touchState (HAL_EndFrame s) ! i"
  have slot: "?t' = flush_slot ?t"
    using assms by (rule HAL_EndFrame_slot)
  have bits: "bit (ti_state ?t') n \<longleftrightarrow> bit (ti_state ?t) n \<and> n \<noteq> 1 \<and> \<not> bit (ti_state ?t) 2" for n
    by (simp add: slot bit_flush_slot)
  have 1: "HAL_EndFrame s = s\<lparr>touchState := touchState (HAL_EndFrame s)\<rparr>"
    by (simp add: HAL_EndFrame_def flushTouchEvents_def)
  have 2: "ti_x ?t' = ti_x ?t" "ti_y ?t' = ti_y ?t"
    by (simp_all add: slot flush_slot_state)
  have 3: "ti_state ?t' AND JustPressed = 0"
    by (simp add: flag_bits bits)
  have 4: "ti_state ?t AND JustReleased \<noteq> 0 \<longrightarrow> ti_state ?t' = TouchInfo_None"
    by (simp add: slot flush_slot_state)
  have 5: "ti_state ?t AND JustReleased = 0 \<longrightarrow>
         ti_state ?t' = ti_state ?t AND NOT JustPressed
       \<and> ti_state ?t' AND Pressed = ti_state ?t AND Pressed"
  proof
    assume jr: "ti_state ?t AND JustReleased = 0"
    then have a: "ti_state ?t' = ti_state ?t AND NOT JustPressed"
      by (simp add: slot flush_slot_state)
    have "ti_state ?t' AND Pressed = ti_state ?t AND Pressed"
      using jr by (intro bit_word_eqI) (auto simp: bit_simps bits bit_flags flag_bits)
    with a show "ti_state ?t' = ti_state ?t AND NOT JustPressed
       \<and> ti_state ?t' AND Pressed = ti_state ?t AND Pressed"
      by simp
  qed
  have 6: "(SDL_FINGERDOWN \<notin> ev_type ` set evs \<longrightarrow>
             ti_state (touchState s2 ! i) AND JustPressed = 0)
        \<and> (ti_state ?t AND Pressed \<noteq> 0 \<and> ti_state ?t AND JustReleased = 0 \<longrightarrow>
             ti_state (touchState s2 ! i) AND Pressed \<noteq> 0)
        \<and> (ti_state ?t AND JustReleased \<noteq> 0 \<and> evs = [] \<longrightarrow>
             ti_state (touchState s2 ! i) = TouchInfo_None)"
    if run: "apply_events evs (HAL_EndFrame s) = Inr s2" for evs s2
  proof -
    from assms have i: "i < length (touchState (HAL_EndFrame s))"
      by (simp add: HAL_EndFrame_length)
    note tab = apply_events_table [OF run, THEN conjunct2, rule_format, OF i]
    have a: "SDL_FINGERDOWN \<notin> ev_type ` set evs \<longrightarrow> ti_state (touchState s2 ! i) AND JustPressed = 0"
      using tab bits [of 1] by (auto simp: flag_bits)
    have b: "ti_state ?t AND Pressed \<noteq> 0 \<and> ti_state ?t AND JustReleased = 0 \<longrightarrow>
             ti_state (touchState s2 ! i) AND Pressed \<noteq> 0"
      using tab bits [of 0] by (auto simp: flag_bits)
    have c: "ti_state ?t AND JustReleased \<noteq> 0 \<and> evs = [] \<longrightarrow>
             ti_state (touchState s2 ! i) = TouchInfo_None"
      using run 4 by auto
    from a b c show ?thesis
      by blast
  qed
  have 7: "ti_state (touchState s2 ! i) AND Pressed \<noteq> 0"
    if run: "run_frames fs (HAL_EndFrame s) = Inr s2"
      and noup: "\<forall>evs \<in> set fs. SDL_FINGERUP \<notin> ev_type ` set evs"
      and pr: "ti_state ?t AND Pressed \<noteq> 0" and jr: "ti_state ?t AND JustReleased = 0"
    for fs s2
  proof -
    from assms have i: "i < length (touchState (HAL_EndFrame s))"
      by (simp add: HAL_EndFrame_length)
    have "bit (ti_state ?t') 0" "\<not> bit (ti_state ?t') 2"
      using pr jr by (simp_all add: bits flag_bits)
    from run_frames_pressed [OF run i noup this] show ?thesis
      by (simp add: flag_bits)
  qed
  from 1 2 3 4 5 6 7 show ?thesis
    by blast
qed

text \<open>
  Two runs of C2 on slot 3: a slot with JustPressed and Pressed becomes Pressed; a slot
  with Pressed and JustReleased becomes None.
\<close>

theorem touch_edges_last_one_frame_witness:
  "3 < length (touchState ((initial_state 640 480 128 128)
         \<lparr>touchState := (replicate 8 TouchInfo_default)[3 := \<lparr>ti_x = 64, ti_y = 64, ti_state = 3\<rparr>]\<rparr>))
   \<and> ti_state (touchState (HAL_EndFrame ((initial_state 640 480 128 128)
         \<lparr>touchState := (replicate 8 TouchInfo_default)[3 := \<lparr>ti_x = 64, ti_y = 64, ti_state = 3\<rparr>]\<rparr>)) ! 3)
       = Pressed
   \<and> 3 < length (touchState ((initial_state 640 480 128 128)
         \<lparr>touchState := (replicate 8 TouchInfo_default)[3 := \<lparr>ti_x = 64, ti_y = 64, ti_state = 5\<rparr>]\<rparr>))
   \<and> ti_state (touchState (HAL_EndFrame ((initial_state 640 480 128 128)
         \<lparr>touchState := (replicate 8 TouchInfo_default)[3 := \<lparr>ti_x = 64, ti_y = 64, ti_state = 5\<rparr>]\<rparr>)) ! 3)
       = TouchInfo_None"
proof -
  let ?s1 = "(initial_state 640 480 128 128)
         \<lparr>touchState := (replicate 8 TouchInfo_default)[3 := \<lparr>ti_x = 64, ti_y = 64, ti_state = 3\<rparr>]\<rparr>"
  let ?s2 = "(initial_state 640 480 128 128)
         \<lparr>touchState := (replicate 8 TouchInfo_default)[3 := \<lparr>ti_x = 64, ti_y = 64, ti_state = 5\<rparr>]\<rparr>"
  have l1: "3 < length (touchState ?s1)" and l2: "3 < length (touchState ?s2)"
    by simp_all
  have v1: "ti_state (touchState ?s1 ! 3) = 3" and v2: "ti_state (touchState ?s2 ! 3) = 5"
    by simp_all
  have r1: "(3 :: 32 word) AND JustReleased = 0" and r2: "(5 :: 32 word) AND JustReleased \<noteq> 0"
    and p: "(3 :: 32 word) AND NOT JustPressed = Pressed"
    by (simp_all add: JustReleased_def JustPressed_def Pressed_def)
  from touch_edges_last_one_frame [OF l1] r1 p
  have "ti_state (touchState (HAL_EndFrame ?s1) ! 3) = Pressed"
    unfolding v1 by metis
  moreover from touch_edges_last_one_frame [OF l2] r2
  have "ti_state (touchState (HAL_EndFrame ?s2) ! 3) = TouchInfo_None"
    unfolding v2 by metis
  ultimately show ?thesis
    using l1 l2 by blast
qed

lemma getDisplayArea_example:
  "getDisplayArea (initial_state 640 480 128 128)
     = Inr (\<lparr>rect_x = 80, rect_y = 0, rect_w = 480, rect_h = 480\<rparr>, Finite (15 / 4))"
proof -
  let ?s = "initial_state 640 480 128 128"
  have f: "window_w ?s = 640" "window_h ?s = 480" "screenWidth ?s = 128" "screenHeight ?s = 128"
    by (simp_all add: initial_state_def)
  have p: "0 < window_w ?s" "window_w ?s < 65536" "0 < window_h ?s" "window_h ?s < 65536"
    "0 < screenWidth ?s" "screenWidth ?s < 65536" "0 < screenHeight ?s" "screenHeight ?s < 65536"
    by (simp_all add: f)
  have e1: "fp_round 53 (- 1074) (real_of_int 640 / real_of_int 128) = 5"
    using binary64_exact [of 5 0 "real_of_int 640 / real_of_int 128"] by simp
  have e2: "fp_round 53 (- 1074) (5 * real_of_int 128) = 640"
    using binary64_exact [of 640 0 "5 * real_of_int 128"] by simp
  have e3: "fp_round 53 (- 1074) (real_of_int 480 / real_of_int 128) = 15 / 4"
    using binary64_exact [of 15 2 "real_of_int 480 / real_of_int 128"] by simp
  have e4: "fp_round 53 (- 1074) (15 / 4 * real_of_int 128) = 480"
    using binary64_exact [of 480 0 "15 / 4 * real_of_int 128"] by simp
  have wide: "real_of_int (window_h ?s) < fp_round 53 (- 1074)
        (fp_round 53 (- 1074) (real_of_int (window_w ?s) / real_of_int (screenWidth ?s))
           * real_of_int (screenHeight ?s))"
    unfolding f e1 e2 by simp
  show ?thesis
    using getDisplayArea_wide(1) [OF p wide] unfolding f e3 e4 by simp
qed

text \<open>\<open>scaleMouse\<close> once the display area is known.\<close>

lemma scaleMouse_area:
  assumes "getDisplayArea s = Inr (r, Finite sc)"
    and "d_of_int (x - rect_x r) = Finite a" "d_div (Finite a) (Finite sc) = Finite qx"
      "real_to_int qx = Some vx"
    and "d_of_int (y - rect_y r) = Finite b" "d_div (Finite b) (Finite sc) = Finite qy"
      "real_to_int qy = Some vy"
  shows "scaleMouse s (x, y) = Inr (vx, vy)"
  using assms by (simp add: scaleMouse_def Let_def del: d_div.simps)

lemma real_to_int_of_int:
  "- (2 ^ 31) \<le> n \<Longrightarrow> n < 2 ^ 31 \<Longrightarrow> real_to_int (real_of_int n) = Some n"
  by (simp add: real_to_int_def trunc_real_def)

lemma scaleMouse_example:
  "scaleMouse (initial_state 640 480 128 128) (320, 240) = Inr (64, 64)"
proof -
  have d: "d_of_int 240 = Finite 240"
    using d_of_int_exact [of 240] by simp
  have "d_round (240 / (15 / 4)) = Finite (240 / (15 / 4))"
    by (rule d_round_exact [of 64 0]) simp_all
  then have q: "d_div (Finite 240) (Finite (15 / 4)) = Finite 64"
    by simp
  have c: "real_to_int 64 = Some 64"
    using real_to_int_of_int [of 64] by simp
  have a: "d_of_int (320 - rect_x \<lparr>rect_x = 80, rect_y = 0, rect_w = 480, rect_h = 480\<rparr>) = Finite 240"
    "d_of_int (240 - rect_y \<lparr>rect_x = 80, rect_y = 0, rect_w = 480, rect_h = 480\<rparr>) = Finite 240"
    by (simp_all add: d)
  show ?thesis
    by (rule scaleMouse_area [OF getDisplayArea_example a(1) q c a(2) q c])
qed

lemma touch_position_area:
  assumes "real_to_int (f_mul (tfinger_x ev) (f_of_int (window_w s))) = Some px"
    and "real_to_int (f_mul (tfinger_y ev) (f_of_int (window_h s))) = Some py"
  shows "touch_position ev s = scaleMouse s (px, py)"
  using assms by (simp add: touch_position_def)

text \<open>The quotient of \<open>scaleMouse\<close> has a conversion to \<open>int\<close>.\<close>

lemma scale_quotient_defined:
  fixes a :: int and sc :: real
  assumes a: "\<bar>a\<bar> \<le> 32767" and sc: "1 / 2 ^ 16 < sc"
  shows "\<exists>v. d_to_int (d_div (d_of_int a) (Finite sc)) = Some v"
proof -
  let ?u = "real_of_int 2147418112"
  let ?r = "fp_round 53 (- 1074) (real_of_int a / sc)"
  have s0: "0 < sc"
    using sc by (simp add: less_trans [OF _ sc])
  have d: "d_of_int a = Finite (real_of_int a)"
    using a by (intro d_of_int_signed) simp
  have "\<bar>real_of_int a\<bar> \<le> 32767"
    using a by linarith
  moreover have "32767 \<le> 32767 * (sc * 2 ^ 16)"
    using sc by (simp add: field_simps)
  ultimately have "\<bar>real_of_int a\<bar> \<le> ?u * sc"
    by simp
  then have q: "\<bar>real_of_int a / sc\<bar> \<le> ?u"
    using s0 by (simp add: pos_divide_le_eq)
  have u: "fp_round 53 (- 1074) ?u = ?u"
    by (intro fp_round_of_int) simp_all
  have r: "\<bar>?r\<bar> \<le> ?u"
    using q _ u by (rule fp_round_abs_le [rotated]) simp_all
  then have "\<bar>?r\<bar> < 2 ^ 64"
    by simp
  then have dr: "d_round (real_of_int a / sc) = Finite ?r"
    by (rule d_round_Finite)
  have "- 2147418112 \<le> trunc_real ?r \<and> trunc_real ?r \<le> 2147418112"
  proof (cases "0 \<le> ?r")
    case True
    then have "trunc_real ?r = \<lfloor>?r\<rfloor>"
      by (simp add: trunc_real_def)
    moreover have "0 \<le> \<lfloor>?r\<rfloor>"
      using True by simp
    moreover have "\<lfloor>?r\<rfloor> \<le> 2147418112"
      using r True by (simp add: floor_le_iff)
    ultimately show ?thesis
      by simp
  next
    case False
    then have "trunc_real ?r = \<lceil>?r\<rceil>"
      by (simp add: trunc_real_def)
    moreover have "\<lceil>?r\<rceil> \<le> 0"
      using False by (simp add: ceiling_le_iff)
    moreover have "- 2147418112 \<le> \<lceil>?r\<rceil>"
      using r False by (simp add: le_ceiling_iff)
    ultimately show ?thesis
      by simp
  qed
  then have "real_to_int ?r = Some (trunc_real ?r)"
    by (simp add: real_to_int_def)
  then show ?thesis
    using s0 by (simp add: d dr)
qed

text \<open>The window position of a touch inside the window has a conversion to \<open>int\<close>.\<close>

lemma window_position_defined:
  fixes x :: real and w :: int
  assumes x: "0 \<le> x" "x \<le> 1" and w: "0 < w" "w < 65536"
  shows "\<exists>px. real_to_int (f_mul x (f_of_int w)) = Some px \<and> 0 \<le> px \<and> px \<le> w"
proof -
  have "w < 2 ^ 24"
    using w by simp
  with w have e: "fp_round 24 (- 149) (real_of_int w) = real_of_int w"
    by (intro fp_round_of_int) simp_all
  let ?P = "fp_round 24 (- 149) (x * real_of_int w)"
  have "0 \<le> x * real_of_int w"
    using x w by simp
  moreover have "x * real_of_int w \<le> 1 * real_of_int w"
    using x w by (intro mult_right_mono) simp_all
  then have "x * real_of_int w \<le> real_of_int w"
    by simp
  ultimately have P: "0 \<le> ?P" "?P \<le> real_of_int w"
    using fp_round_bounds [of 24 "x * real_of_int w" "real_of_int w" "- 149"] e w by simp_all
  have "real_of_int w < 65536"
    using w by simp
  moreover have "(65536::real) < 2 ^ 31"
    by simp
  ultimately have "?P < 2 ^ 31"
    using P(2) by linarith
  with P(1) have "real_to_int ?P = Some \<lfloor>?P\<rfloor>"
    by (rule real_to_int_floor)
  moreover have "0 \<le> \<lfloor>?P\<rfloor>"
    using P(1) by simp
  moreover have "\<lfloor>?P\<rfloor> \<le> w"
    using P(2) by (simp add: floor_le_iff)
  ultimately show ?thesis
    by (simp add: f_mul_def f_of_int_def f_round_def e)
qed

lemma scale_lower_bound:
  fixes a b :: int and X :: real
  assumes "0 < a" "0 < b" "b < 32768"
    and X: "\<bar>X - real_of_int a / real_of_int b\<bar> < 1 / 2 ^ 36"
  shows "1 / 2 ^ 16 < X"
proof -
  have a: "1 \<le> real_of_int a"
    using assms by simp
  have b: "0 < real_of_int b" "real_of_int b \<le> 32768"
    using assms by simp_all
  have "real_of_int b \<le> real_of_int a * 32768"
    using a b by linarith
  then have "1 / 2 ^ 15 \<le> real_of_int a / real_of_int b"
    using b by (simp add: pos_le_divide_eq)
  moreover have "(1::real) / 2 ^ 16 + 1 / 2 ^ 36 < 1 / 2 ^ 15"
    by simp
  ultimately show ?thesis
    using X by linarith
qed

text \<open>
  For sizes below 32768 the display area is defined, its origin lies in the window and
  its scale is more than \<open>1 / 2 ^ 16\<close>.
\<close>

lemma getDisplayArea_defined:
  assumes w: "0 < window_w s" "window_w s < 32768" and h: "0 < window_h s" "window_h s < 32768"
    and sw: "0 < screenWidth s" "screenWidth s < 32768"
    and sh: "0 < screenHeight s" "screenHeight s < 32768"
  shows "\<exists>r sc. getDisplayArea s = Inr (r, Finite sc) \<and> 1 / 2 ^ 16 < sc
    \<and> 0 \<le> rect_x r \<and> rect_x r \<le> window_w s \<and> 0 \<le> rect_y r \<and> rect_y r \<le> window_h s"
proof -
  have w': "0 < window_w s" "window_w s < 65536" and h': "0 < window_h s" "window_h s < 65536"
    and sw': "0 < screenWidth s" "screenWidth s < 65536"
    and sh': "0 < screenHeight s" "screenHeight s < 65536"
    using assms by simp_all
  let ?X = "fp_round 53 (- 1074) (real_of_int (window_w s) / real_of_int (screenWidth s))"
  let ?Px = "fp_round 53 (- 1074) (?X * real_of_int (screenHeight s))"
  show ?thesis
  proof (cases "real_of_int (window_h s) < ?Px")
    case True
    let ?Y = "fp_round 53 (- 1074) (real_of_int (window_h s) / real_of_int (screenHeight s))"
    let ?P = "fp_round 53 (- 1074) (?Y * real_of_int (screenWidth s))"
    note area = getDisplayArea_wide [OF w' h' sw' sh' True]
    note side = letterbox_side [OF sh' w'(2) area(3,4,2)]
    note Y = d_ratio [OF h' sh']
    have sc: "1 / 2 ^ 16 < ?Y"
      using h(1) sh Y(2) by (rule scale_lower_bound)
    have "window_w s div 2 - \<lfloor>?P\<rfloor> div 2 \<le> window_w s"
      using side(3,6) by linarith
    with area(1) sc side(5) h(1) show ?thesis
      by simp
  next
    case False
    note area = getDisplayArea_tall [OF w' h' sw' sh' False]
    note side = letterbox_side [OF sw' h'(2) area(3,4,2)]
    note X = d_ratio [OF w' sw']
    have sc: "1 / 2 ^ 16 < ?X"
      using w(1) sw X(2) by (rule scale_lower_bound)
    have "window_h s div 2 - \<lfloor>?Px\<rfloor> div 2 \<le> window_h s"
      using side(3,6) by linarith
    with area(1) sc side(5) w(1) show ?thesis
      by simp
  qed
qed

text \<open>
  So for a window and a screen with sizes below 32768 and a touch with normalised
  coordinates from 0 to 1, every conversion to \<open>int\<close> of \<open>processTouchEvent\<close> is defined.
\<close>

lemma touch_position_defined:
  assumes w: "0 < window_w s" "window_w s < 32768" and h: "0 < window_h s" "window_h s < 32768"
    and sw: "0 < screenWidth s" "screenWidth s < 32768"
    and sh: "0 < screenHeight s" "screenHeight s < 32768"
    and x: "0 \<le> tfinger_x ev" "tfinger_x ev \<le> 1" and y: "0 \<le> tfinger_y ev" "tfinger_y ev \<le> 1"
  shows "\<exists>px py vx vy.
      real_to_int (f_mul (tfinger_x ev) (f_of_int (window_w s))) = Some px
    \<and> real_to_int (f_mul (tfinger_y ev) (f_of_int (window_h s))) = Some py
    \<and> 0 \<le> px \<and> px \<le> window_w s \<and> 0 \<le> py \<and> py \<le> window_h s
    \<and> scaleMouse s (px, py) = Inr (vx, vy)"
proof -
  have "window_w s < 65536" "window_h s < 65536"
    using w h by simp_all
  with window_position_defined [OF x w(1)] window_position_defined [OF y h(1)]
  obtain px py where
    px: "real_to_int (f_mul (tfinger_x ev) (f_of_int (window_w s))) = Some px"
      "0 \<le> px" "px \<le> window_w s"
    and py: "real_to_int (f_mul (tfinger_y ev) (f_of_int (window_h s))) = Some py"
      "0 \<le> py" "py \<le> window_h s"
    by blast
  from getDisplayArea_defined [OF w h sw sh] obtain r sc where
    area: "getDisplayArea s = Inr (r, Finite sc)" and sc: "1 / 2 ^ 16 < sc"
    and r: "0 \<le> rect_x r" "rect_x r \<le> window_w s" "0 \<le> rect_y r" "rect_y r \<le> window_h s"
    by blast
  have "\<bar>px - rect_x r\<bar> \<le> 32767" "\<bar>py - rect_y r\<bar> \<le> 32767"
    using px(2,3) py(2,3) r w(2) h(2) by linarith+
  with sc scale_quotient_defined obtain vx vy where
    vx: "d_to_int (d_div (d_of_int (px - rect_x r)) (Finite sc)) = Some vx"
    and vy: "d_to_int (d_div (d_of_int (py - rect_y r)) (Finite sc)) = Some vy"
    by blast
  have "scaleMouse s (px, py) = Inr (vx, vy)"
    by (simp add: scaleMouse_def Let_def area vx vy del: d_div.simps)
  with px py show ?thesis
    by blast
qed

text \<open>
  C5 as the code has it: a finger down, motion or up event whose identifier is from 0 to
  7 is handled in the slot of that identifier and in no other. The window position of the
  touch is, in each direction, the float product of the normalised coordinate and the
  window's extent, converted to \<open>int\<close>; the slot's position becomes that position mapped
  by \<open>scaleMouse\<close>, whenever these two conversions and those of \<open>scaleMouse\<close> are defined.
  They all are when the widths and heights of the window and of the screen are positive
  and below 32768 and the normalised coordinates are from 0 to 1; the window position
  then lies in the window. The state gets JustPressed and Pressed for a down event,
  Pressed for a motion event and JustReleased for an up event, no flag being cleared. An
  event whose identifier is 8 or more changes nothing and the call returns true. The
  identifier is not reduced modulo 8.
\<close>

theorem touch_event_routing:
  assumes "ev_type ev = SDL_FINGERDOWN \<or> ev_type ev = SDL_FINGERMOTION \<or> ev_type ev = SDL_FINGERUP"
    and "length (touchState s) = 8"
  shows "(0 \<le> tfinger_fingerId ev \<and> tfinger_fingerId ev < 8
          \<and> real_to_int (f_mul (tfinger_x ev) (f_of_int (window_w s))) = Some px
          \<and> real_to_int (f_mul (tfinger_y ev) (f_of_int (window_h s))) = Some py
          \<and> scaleMouse s (px, py) = Inr (vx, vy) \<longrightarrow>
            INP_ProcessInputEvents ev s =
              Inr (True, s\<lparr>touchState := (touchState s)[nat (tfinger_fingerId ev) :=
                (touchState s ! nat (tfinger_fingerId ev))\<lparr>ti_x := vx, ti_y := vy,
                  ti_state := ti_state (touchState s ! nat (tfinger_fingerId ev)) OR
                    (if ev_type ev = SDL_FINGERDOWN then JustPressed OR Pressed
                     else if ev_type ev = SDL_FINGERMOTION then Pressed else JustReleased)\<rparr>]\<rparr>))
       \<and> (0 < window_w s \<and> window_w s < 32768 \<and> 0 < window_h s \<and> window_h s < 32768
          \<and> 0 < screenWidth s \<and> screenWidth s < 32768
          \<and> 0 < screenHeight s \<and> screenHeight s < 32768
          \<and> 0 \<le> tfinger_x ev \<and> tfinger_x ev \<le> 1 \<and> 0 \<le> tfinger_y ev \<and> tfinger_y ev \<le> 1 \<longrightarrow>
            (\<exists>wx wy mx my.
                real_to_int (f_mul (tfinger_x ev) (f_of_int (window_w s))) = Some wx
              \<and> real_to_int (f_mul (tfinger_y ev) (f_of_int (window_h s))) = Some wy
              \<and> 0 \<le> wx \<and> wx \<le> window_w s \<and> 0 \<le> wy \<and> wy \<le> window_h s
              \<and> scaleMouse s (wx, wy) = Inr (mx, my)))
       \<and> (8 \<le> tfinger_fingerId ev \<longrightarrow> INP_ProcessInputEvents ev s = Inr (True, s))"
proof (intro conjI impI)
  assume "8 \<le> tfinger_fingerId ev"
  then have "processTouchEvent ev s = Inr s"
    by (simp add: processTouchEvent_def touchState_size_def)
  then show "INP_ProcessInputEvents ev s = Inr (True, s)"
    by (simp add: process_finger_event [OF assms(1)])
next
  assume "0 < window_w s \<and> window_w s < 32768 \<and> 0 < window_h s \<and> window_h s < 32768
          \<and> 0 < screenWidth s \<and> screenWidth s < 32768
          \<and> 0 < screenHeight s \<and> screenHeight s < 32768
          \<and> 0 \<le> tfinger_x ev \<and> tfinger_x ev \<le> 1 \<and> 0 \<le> tfinger_y ev \<and> tfinger_y ev \<le> 1"
  then show "\<exists>wx wy mx my.
                real_to_int (f_mul (tfinger_x ev) (f_of_int (window_w s))) = Some wx
              \<and> real_to_int (f_mul (tfinger_y ev) (f_of_int (window_h s))) = Some wy
              \<and> 0 \<le> wx \<and> wx \<le> window_w s \<and> 0 \<le> wy \<and> wy \<le> window_h s
              \<and> scaleMouse s (wx, wy) = Inr (mx, my)"
    by (intro touch_position_defined) simp_all
next
  assume a: "0 \<le> tfinger_fingerId ev \<and> tfinger_fingerId ev < 8
          \<and> real_to_int (f_mul (tfinger_x ev) (f_of_int (window_w s))) = Some px
          \<and> real_to_int (f_mul (tfinger_y ev) (f_of_int (window_h s))) = Some py
          \<and> scaleMouse s (px, py) = Inr (vx, vy)"
  let ?i = "nat (tfinger_fingerId ev)"
  from a have fid: "0 \<le> tfinger_fingerId ev" "tfinger_fingerId ev < 8"
    by simp_all
  from a have v: "touch_position ev s = Inr (vx, vy)"
    by (simp add: touch_position_area)
  have "processTouchEvent ev s = Inr (s\<lparr>touchState := (touchState s)[?i :=
      (touchState s ! ?i)\<lparr>ti_x := vx, ti_y := vy,
         ti_state := touch_flags (ev_type ev) (ti_state (touchState s ! ?i))\<rparr>]\<rparr>)"
    by (simp add: processTouchEvent_in_range [OF fid assms(2)] v)
  then show "INP_ProcessInputEvents ev s =
      Inr (True, s\<lparr>touchState := (touchState s)[?i :=
        (touchState s ! ?i)\<lparr>ti_x := vx, ti_y := vy,
          ti_state := ti_state (touchState s ! ?i) OR
            (if ev_type ev = SDL_FINGERDOWN then JustPressed OR Pressed
             else if ev_type ev = SDL_FINGERMOTION then Pressed else JustReleased)\<rparr>]\<rparr>)"
    by (simp only: process_finger_event [OF assms(1)] touch_flags_or [OF assms(1)] sum.case)
qed

text \<open>
  A run of C5: in a window of 640 by 480 with the screen of 128 by 128, the down event of
  finger 3 in the middle of the window has the window position (320, 240), and puts the
  position (64, 64) and the state JustPressed and Pressed into slot 3.
\<close>

theorem touch_event_routing_witness:
  "(ev_type (finger_event SDL_FINGERDOWN 3 (1 / 2) (1 / 2)) = SDL_FINGERDOWN
      \<or> ev_type (finger_event SDL_FINGERDOWN 3 (1 / 2) (1 / 2)) = SDL_FINGERMOTION
      \<or> ev_type (finger_event SDL_FINGERDOWN 3 (1 / 2) (1 / 2)) = SDL_FINGERUP)
   \<and> length (touchState (initial_state 640 480 128 128)) = 8
   \<and> window_w (initial_state 640 480 128 128) = 640
   \<and> window_h (initial_state 640 480 128 128) = 480
   \<and> screenWidth (initial_state 640 480 128 128) = 128
   \<and> screenHeight (initial_state 640 480 128 128) = 128
   \<and> tfinger_x (finger_event SDL_FINGERDOWN 3 (1 / 2) (1 / 2)) = 1 / 2
   \<and> tfinger_y (finger_event SDL_FINGERDOWN 3 (1 / 2) (1 / 2)) = 1 / 2
   \<and> real_to_int (f_mul (tfinger_x (finger_event SDL_FINGERDOWN 3 (1 / 2) (1 / 2)))
        (f_of_int (window_w (initial_state 640 480 128 128)))) = Some 320
   \<and> real_to_int (f_mul (tfinger_y (finger_event SDL_FINGERDOWN 3 (1 / 2) (1 / 2)))
        (f_of_int (window_h (initial_state 640 480 128 128)))) = Some 240
   \<and> scaleMouse (initial_state 640 480 128 128) (320, 240) = Inr (64, 64)
   \<and> INP_ProcessInputEvents (finger_event SDL_FINGERDOWN 3 (1 / 2) (1 / 2))
        (initial_state 640 480 128 128)
      = Inr (True, (initial_state 640 480 128 128)
              \<lparr>touchState := (replicate 8 TouchInfo_default)
                 [3 := \<lparr>ti_x = 64, ti_y = 64, ti_state = 3\<rparr>]\<rparr>)"
proof -
  let ?ev = "finger_event SDL_FINGERDOWN 3 (1 / 2) (1 / 2)"
  let ?s = "initial_state 640 480 128 128"
  have t: "ev_type ?ev = SDL_FINGERDOWN \<or> ev_type ?ev = SDL_FINGERMOTION \<or> ev_type ?ev = SDL_FINGERUP"
    by (simp add: finger_event_simps)
  have l: "length (touchState ?s) = 8"
    by (simp add: initial_state_def touchState_size_def)
  have f: "window_w ?s = 640" "window_h ?s = 480" "screenWidth ?s = 128" "screenHeight ?s = 128"
    by (simp_all add: initial_state_def)
  have n: "tfinger_x ?ev = 1 / 2" "tfinger_y ?ev = 1 / 2"
    by (simp_all add: finger_event_simps)
  have g: "0 < window_w ?s \<and> window_w ?s < 32768 \<and> 0 < window_h ?s \<and> window_h ?s < 32768
          \<and> 0 < screenWidth ?s \<and> screenWidth ?s < 32768
          \<and> 0 < screenHeight ?s \<and> screenHeight ?s < 32768
          \<and> 0 \<le> tfinger_x ?ev \<and> tfinger_x ?ev \<le> 1 \<and> 0 \<le> tfinger_y ?ev \<and> tfinger_y ?ev \<le> 1"
    by (simp add: f n)
  have i: "f_of_int 640 = 640" "f_of_int 480 = 480"
    unfolding f_of_int_def
    using binary32_exact [of 640 0 "real_of_int 640"] binary32_exact [of 480 0 "real_of_int 480"]
    by simp_all
  have "f_round (1 / 2 * 640) = 1 / 2 * 640"
    by (rule binary32_exact [of 320 0]) simp_all
  then have x: "f_mul (1 / 2) 640 = 320"
    by (simp add: f_mul_def)
  have "f_round (1 / 2 * 480) = 1 / 2 * 480"
    by (rule binary32_exact [of 240 0]) simp_all
  then have y: "f_mul (1 / 2) 480 = 240"
    by (simp add: f_mul_def)
  have c: "real_to_int 320 = Some 320" "real_to_int 240 = Some 240"
    using real_to_int_of_int [of 320] real_to_int_of_int [of 240] by simp_all
  have px: "real_to_int (f_mul (tfinger_x ?ev) (f_of_int (window_w ?s))) = Some 320"
    by (simp add: n f i x c)
  have py: "real_to_int (f_mul (tfinger_y ?ev) (f_of_int (window_h ?s))) = Some 240"
    by (simp add: n f i y c)
  note th = touch_event_routing [OF t l, of _ _ _ _]
  from th [THEN conjunct2, THEN conjunct1] g obtain wx wy mx my where
    wx: "real_to_int (f_mul (tfinger_x ?ev) (f_of_int (window_w ?s))) = Some wx"
    and wy: "real_to_int (f_mul (tfinger_y ?ev) (f_of_int (window_h ?s))) = Some wy"
    and m: "scaleMouse ?s (wx, wy) = Inr (mx, my)"
    by blast
  from wx px wy py have "wx = 320" "wy = 240"
    by simp_all
  with m scaleMouse_example have mm: "mx = 64" "my = 64"
    by simp_all
  have v: "scaleMouse ?s (320, 240) = Inr (64, 64)"
    using m by (simp only: \<open>wx = 320\<close> \<open>wy = 240\<close> mm)
  have id: "0 \<le> tfinger_fingerId ?ev \<and> tfinger_fingerId ?ev < 8"
    by (simp add: finger_event_simps)
  from th [THEN conjunct1, of 320 240 64 64] id px py v
  have "INP_ProcessInputEvents ?ev ?s =
      Inr (True, ?s\<lparr>touchState := (touchState ?s)[nat (tfinger_fingerId ?ev) :=
        (touchState ?s ! nat (tfinger_fingerId ?ev))\<lparr>ti_x := 64, ti_y := 64,
          ti_state := ti_state (touchState ?s ! nat (tfinger_fingerId ?ev)) OR
            (if ev_type ?ev = SDL_FINGERDOWN then JustPressed OR Pressed
             else if ev_type ?ev = SDL_FINGERMOTION then Pressed else JustReleased)\<rparr>]\<rparr>)"
    by blast
  also have "\<dots> = Inr (True, ?s\<lparr>touchState := (replicate 8 TouchInfo_default)
                 [3 := \<lparr>ti_x = 64, ti_y = 64, ti_state = 3\<rparr>]\<rparr>)"
    by (simp add: finger_event_simps initial_state_def touchState_size_def TouchInfo_default_def
        TouchInfo_None_def JustPressed_def Pressed_def)
  finally show ?thesis
    using t l f n px py v by blast
qed

text \<open>
  The claim C5 routes identifier 9 to slot 1. The down event of finger 9 leaves the whole
  state as it was, slot 1 included.
\<close>

theorem touch_event_modulo_counterexample:
  "INP_ProcessInputEvents (finger_event SDL_FINGERDOWN 9 (1/2) (1/2)) (initial_state 640 480 128 128)
     = Inr (True, initial_state 640 480 128 128)
   \<and> ti_state (touchState (initial_state 640 480 128 128) ! nat (9 mod 8)) = TouchInfo_None"
  by (simp add: INP_ProcessInputEvents_def processTouchEvent_def finger_event_simps
      touchState_size_def initial_state_def TouchInfo_default_def)

text \<open>
  Both roundings show in a position: the normalised coordinate 0.7 as a float is
  11744051 / 16777216; its float product with 640 is 448, not 447.99999809, and the double
  quotient of 448 - 80 by 3.75 has the whole part 98.
\<close>

lemma touch_position_rounding_example:
  "touch_position (finger_event SDL_FINGERDOWN 0 (11744051 / 16777216) (1 / 2))
     (initial_state 640 480 128 128) = Inr (98, 64)"
proof -
  let ?s = "initial_state 640 480 128 128"
  have f: "window_w ?s = 640" "window_h ?s = 480"
    by (simp_all add: initial_state_def)
  have i: "f_of_int 640 = 640" "f_of_int 480 = 480"
    unfolding f_of_int_def
    using binary32_exact [of 640 0 "real_of_int 640"] binary32_exact [of 480 0 "real_of_int 480"]
    by simp_all
  have "f_round (11744051 / 16777216 * 640) = real_of_int 14680064 / 2 ^ 15"
    by (rule binary32_nearest) simp_all
  then have x: "f_mul (11744051 / 16777216) 640 = 448"
    by (simp add: f_mul_def)
  have "f_round (1 / 2 * 480) = 1 / 2 * 480"
    by (rule binary32_exact [of 240 0]) simp_all
  then have y: "f_mul (1 / 2) 480 = 240"
    by (simp add: f_mul_def)
  have c: "real_to_int 448 = Some 448" "real_to_int 240 = Some 240"
    using real_to_int_of_int [of 448] real_to_int_of_int [of 240] by simp_all
  have dx: "d_of_int 368 = Finite 368" and dy: "d_of_int 240 = Finite 240"
    using d_of_int_exact [of 368] d_of_int_exact [of 240] by simp_all
  have "d_round (368 / (15 / 4)) = Finite (real_of_int 6905519428634761 / 2 ^ 46)"
    by (rule d_round_nearest) simp_all
  then have qx: "d_div (Finite 368) (Finite (15 / 4)) = Finite (real_of_int 6905519428634761 / 2 ^ 46)"
    by simp
  have "d_round (240 / (15 / 4)) = Finite (240 / (15 / 4))"
    by (rule d_round_exact [of 64 0]) simp_all
  then have qy: "d_div (Finite 240) (Finite (15 / 4)) = Finite 64"
    by simp
  have cx: "real_to_int (real_of_int 6905519428634761 / 2 ^ 46) = Some 98"
    by (simp add: real_to_int_def trunc_real_def)
  have cy: "real_to_int 64 = Some 64"
    using real_to_int_of_int [of 64] by simp
  have a: "d_of_int (448 - rect_x \<lparr>rect_x = 80, rect_y = 0, rect_w = 480, rect_h = 480\<rparr>) = Finite 368"
    "d_of_int (240 - rect_y \<lparr>rect_x = 80, rect_y = 0, rect_w = 480, rect_h = 480\<rparr>) = Finite 240"
    by (simp_all add: dx dy)
  have "scaleMouse ?s (448, 240) = Inr (98, 64)"
    by (rule scaleMouse_area [OF getDisplayArea_example a(1) qx cx a(2) qy cy])
  then show ?thesis
    by (simp add: touch_position_def finger_event_simps f i x y c)
qed

text \<open>
  With the screen of 88 by 88 the rectangle starts at 81 and the scale is the double next
  below 480/88: the middle of the window is mapped to (43, 44).
\<close>

lemma scaleMouse_rounding_example:
  "scaleMouse (initial_state 640 480 88 88) (320, 240) = Inr (43, 44)"
proof -
  have dx: "d_of_int 239 = Finite 239" and dy: "d_of_int 240 = Finite 240"
    using d_of_int_exact [of 239] d_of_int_exact [of 240] by simp_all
  have "d_round (239 / (6141272219141585 / 2 ^ 50))
      = Finite (real_of_int 6166647614769289 / 2 ^ 47)"
    by (rule d_round_nearest) simp_all
  then have qx: "d_div (Finite 239) (Finite (6141272219141585 / 2 ^ 50))
      = Finite (real_of_int 6166647614769289 / 2 ^ 47)"
    by simp
  have "d_round (240 / (6141272219141585 / 2 ^ 50))
      = Finite (real_of_int 6192449487634432 / 2 ^ 47)"
    by (rule d_round_nearest) simp_all
  then have qy: "d_div (Finite 240) (Finite (6141272219141585 / 2 ^ 50))
      = Finite (real_of_int 6192449487634432 / 2 ^ 47)"
    by simp
  have cx: "real_to_int (real_of_int 6166647614769289 / 2 ^ 47) = Some 43"
    by (simp add: real_to_int_def trunc_real_def)
  have cy: "real_to_int (real_of_int 6192449487634432 / 2 ^ 47) = Some 44"
    by (simp add: real_to_int_def trunc_real_def)
  have a: "d_of_int (320 - rect_x \<lparr>rect_x = 81, rect_y = 0, rect_w = 479, rect_h = 480\<rparr>) = Finite 239"
    "d_of_int (240 - rect_y \<lparr>rect_x = 81, rect_y = 0, rect_w = 479, rect_h = 480\<rparr>) = Finite 240"
    by (simp_all add: dx dy)
  show ?thesis
    by (rule scaleMouse_area [OF getDisplayArea_rounding_example a(1) qx cx a(2) qy cy])
qed

subsection \<open>The keyboard mask\<close>

lemma processTouchEvent_frame:
  assumes "processTouchEvent ev s = Inr s'"
  shows "\<exists>ts. s' = s\<lparr>touchState := ts\<rparr>"
proof (cases "tfinger_fingerId ev < int touchState_size")
  case True
  from processTouchEvent_update [OF assms True] show ?thesis
    by blast
next
  case False
  with assms have "s' = s\<lparr>touchState := touchState s\<rparr>"
    by (simp add: processTouchEvent_def)
  then show ?thesis ..
qed

lemma INP_ProcessInputEvents_not_key:
  assumes "INP_ProcessInputEvents e s = Inr (c, s1)" and "\<not> is_key_event e"
  shows "keyState s1 = keyState s"
proof (cases "ev_type e = SDL_FINGERDOWN \<or> ev_type e = SDL_FINGERMOTION \<or> ev_type e = SDL_FINGERUP")
  case True
  with assms(1) have "processTouchEvent e s = Inr s1"
    by (simp add: process_finger_event split: sum.splits)
  from processTouchEvent_frame [OF this] show ?thesis
    by auto
next
  case False
  with assms show ?thesis
    by (simp add: INP_ProcessInputEvents_def is_key_event_def split: if_splits) auto
qed

lemma INP_ProcessInputEvents_key:
  assumes "INP_ProcessInputEvents e s = Inr (c, s1)" and "is_key_event e"
  shows "keyState s1 = key_bits e (keyState s)
    \<or> keyState s1 = keyState s \<and> ev_type e = SDL_KEYDOWN
        \<and> (key_sym e = SDLK_F11 \<or> key_sym e = SDLK_q \<or> key_sym e = SDLK_t \<or> key_sym e = SDLK_r)"
  using assms
  by (simp add: INP_ProcessInputEvents_def is_key_event_def GFX_ToggleFullScreen_def
      split: if_splits) auto

lemma INP_ProcessInputEvents_key_bit:
  assumes "INP_ProcessInputEvents e s = Inr (c, s1)"
  shows "bit (keyState s1) b =
     (if is_key_event e \<and> key_sym e \<in> set (keys_of_bit b) then ev_type e = SDL_KEYDOWN
      else bit (keyState s) b)"
proof (cases "is_key_event e")
  case False
  with INP_ProcessInputEvents_not_key [OF assms] show ?thesis
    by simp
next
  case True
  from INP_ProcessInputEvents_key [OF assms True] show ?thesis
  proof
    assume "keyState s1 = key_bits e (keyState s)"
    with True show ?thesis
      by (simp add: bit_key_bits)
  next
    assume hot: "keyState s1 = keyState s \<and> ev_type e = SDL_KEYDOWN
        \<and> (key_sym e = SDLK_F11 \<or> key_sym e = SDLK_q \<or> key_sym e = SDLK_t \<or> key_sym e = SDLK_r)"
    then have "key_sym e \<notin> set (keys_of_bit b)"
      by (auto simp: keys_of_bit_def)
    with hot show ?thesis
      by simp
  qed
qed

lemma INP_ProcessInputEvents_key_total:
  "is_key_event e \<Longrightarrow> \<exists>c s1. INP_ProcessInputEvents e s = Inr (c, s1)"
  by (auto simp: INP_ProcessInputEvents_def is_key_event_def)

lemma last_down_Cons:
  "last_down ks d (e # es) =
     last_down ks (if is_key_event e \<and> key_sym e \<in> set ks then ev_type e = SDL_KEYDOWN else d) es"
  by (cases "events_of_keys ks es") (auto simp: last_down_def events_of_keys_def)

lemma last_down_Nil: "last_down ks d [] = d"
  by (simp add: last_down_def events_of_keys_def)

lemma apply_events_key_bit:
  "apply_events evs s = Inr s' \<Longrightarrow>
     bit (keyState s') b = last_down (keys_of_bit b) (bit (keyState s) b) evs"
proof (induction evs arbitrary: s)
  case Nil
  then show ?case by (simp add: last_down_Nil)
next
  case (Cons e es)
  from Cons.prems obtain c s1 where
    step: "INP_ProcessInputEvents e s = Inr (c, s1)" and rest: "apply_events es s1 = Inr s'"
    by (auto split: sum.splits)
  from Cons.IH [OF rest] INP_ProcessInputEvents_key_bit [OF step, of b] show ?case
    by (simp only: last_down_Cons)
qed

lemma apply_events_key_total:
  "\<forall>e \<in> set evs. is_key_event e \<Longrightarrow> \<exists>s'. apply_events evs s = Inr s'"
proof (induction evs arbitrary: s)
  case Nil
  then show ?case by simp
next
  case (Cons e es)
  then obtain c s1 where "INP_ProcessInputEvents e s = Inr (c, s1)"
    using INP_ProcessInputEvents_key_total [of e s] by auto
  with Cons show ?case
    by simp
qed

lemma spec_key_bit_single:
  "b \<noteq> 6 \<Longrightarrow> spec_key_bit b evs = last_down (keys_of_bit b) False evs"
  by (simp add: spec_key_bit_def keys_of_bit_def last_down_def events_of_keys_def)

text \<open>
  C3 as the code has it: every sequence of key-down and key-up events is handled without
  fault, and afterwards each bit of the keyboard mask says whether the most recent event
  among all the physical keys attached to that bit was a down event (the bit keeps its
  value when there is no such event). From the initial mask 0, every bit other than bit 6
  has one key and equals the specification's reading; bit 6 follows the most recent event
  among the P and RETURN events, so an up event of one of the two keys clears the bit
  while the other key is held.
\<close>

theorem key_bit_most_recent:
  assumes "\<forall>e \<in> set evs. is_key_event e"
  shows "\<exists>s'. apply_events evs s = Inr s'
    \<and> (\<forall>b. bit (keyState s') b = last_down (keys_of_bit b) (bit (keyState s) b) evs)
    \<and> (keyState s = 0 \<longrightarrow> (\<forall>b. b \<noteq> 6 \<longrightarrow> bit (keyState s') b = spec_key_bit b evs))
    \<and> (keyState s = 0 \<longrightarrow> bit (keyState s') 6 = last_down [SDLK_p, SDLK_RETURN] False evs)"
proof -
  from apply_events_key_total [OF assms] obtain s' where run: "apply_events evs s = Inr s'"
    by blast
  have a: "bit (keyState s') b = last_down (keys_of_bit b) (bit (keyState s) b) evs" for b
    using run by (rule apply_events_key_bit)
  have b: "bit (keyState s') b = spec_key_bit b evs" if "keyState s = 0" "b \<noteq> 6" for b
    using a [of b] that by (simp add: spec_key_bit_single)
  have c: "bit (keyState s') 6 = last_down [SDLK_p, SDLK_RETURN] False evs" if "keyState s = 0"
    using a [of 6] that by (simp add: keys_of_bit_def)
  from run a b c show ?thesis
    by blast
qed

text \<open>
  A run of C3: after Z down, Z down, X down, X up from the initial state, bit 4 is set and
  bit 5 is clear.
\<close>

theorem key_bit_most_recent_witness:
  "list_all is_key_event [key_event SDL_KEYDOWN SDLK_z 0, key_event SDL_KEYDOWN SDLK_z 0,
                 key_event SDL_KEYDOWN SDLK_x 0, key_event SDL_KEYUP SDLK_x 0]
   \<and> (\<exists>s'. apply_events [key_event SDL_KEYDOWN SDLK_z 0, key_event SDL_KEYDOWN SDLK_z 0,
                 key_event SDL_KEYDOWN SDLK_x 0, key_event SDL_KEYUP SDLK_x 0]
               (initial_state 640 480 128 128) = Inr s'
          \<and> bit (keyState s') 4 \<and> \<not> bit (keyState s') 5)"
proof -
  let ?evs = "[key_event SDL_KEYDOWN SDLK_z 0, key_event SDL_KEYDOWN SDLK_z 0,
                 key_event SDL_KEYDOWN SDLK_x 0, key_event SDL_KEYUP SDLK_x 0]"
  have k: "\<forall>e \<in> set ?evs. is_key_event e"
    by (simp add: is_key_event_def key_event_simps)
  have z: "keyState (initial_state 640 480 128 128) = 0"
    by (simp add: initial_state_def)
  have 4: "spec_key_bit 4 ?evs" and 5: "\<not> spec_key_bit 5 ?evs"
    by (simp_all add: spec_key_bit_def keys_of_bit_def last_down_def events_of_keys_def
        is_key_event_def key_event_simps)
  from key_bit_most_recent [OF k, of "initial_state 640 480 128 128"] z 4 5
  have "\<exists>s'. apply_events ?evs (initial_state 640 480 128 128) = Inr s'
          \<and> bit (keyState s') 4 \<and> \<not> bit (keyState s') 5"
    by (auto simp: numeral_eq_iff)
  moreover have "list_all is_key_event ?evs"
    by (simp add: is_key_event_def key_event_simps)
  ultimately show ?thesis
    by blast
qed

text \<open>
  The claim C3 fails for bit 6: after P down, RETURN down, P up the most recent event of
  RETURN is a down event, so the specification's reading of bit 6 is true, and the mask
  is back to 0.
\<close>

theorem key_bit_shared_counterexample:
  "apply_events [key_event SDL_KEYDOWN SDLK_p 0, key_event SDL_KEYDOWN SDLK_RETURN 0,
       key_event SDL_KEYUP SDLK_p 0] (initial_state 640 480 128 128)
     = Inr (initial_state 640 480 128 128)
   \<and> \<not> bit (keyState (initial_state 640 480 128 128)) 6
   \<and> spec_key_bit 6 [key_event SDL_KEYDOWN SDLK_p 0, key_event SDL_KEYDOWN SDLK_RETURN 0,
       key_event SDL_KEYUP SDLK_p 0]"
proof (intro conjI)
  show "\<not> bit (keyState (initial_state 640 480 128 128)) 6"
    by (simp add: initial_state_def)
  show "spec_key_bit 6 [key_event SDL_KEYDOWN SDLK_p 0, key_event SDL_KEYDOWN SDLK_RETURN 0,
       key_event SDL_KEYUP SDLK_p 0]"
    by (simp add: spec_key_bit_def keys_of_bit_def last_down_def events_of_keys_def
        is_key_event_def key_event_simps)
  show "apply_events [key_event SDL_KEYDOWN SDLK_p 0, key_event SDL_KEYDOWN SDLK_RETURN 0,
       key_event SDL_KEYUP SDLK_p 0] (initial_state 640 480 128 128)
     = Inr (initial_state 640 480 128 128)"
    by (simp add: INP_ProcessInputEvents_def key_event_simps key_bits_def set_state_bit_def
        initial_state_def)
qed

subsection \<open>Opposite joystick directions\<close>

lemma bit_button_bits:
  "n < 4 \<Longrightarrow> bit (button_bits ev j) n = bit j n"
  by (simp add: button_bits_def Let_def bit_set_state_bit)

lemma INP_ProcessInputEvents_joy:
  assumes "INP_ProcessInputEvents e s = Inr (c, s1)"
  shows "joyState s1 = joyState s \<or> joyState s1 = axis_bits e (joyState s)
    \<or> joyState s1 = button_bits e (joyState s)"
proof (cases "ev_type e = SDL_FINGERDOWN \<or> ev_type e = SDL_FINGERMOTION \<or> ev_type e = SDL_FINGERUP")
  case True
  with assms have "processTouchEvent e s = Inr s1"
    by (simp add: process_finger_event split: sum.splits)
  from processTouchEvent_frame [OF this] show ?thesis
    by auto
next
  case False
  with assms show ?thesis
    by (simp add: INP_ProcessInputEvents_def GFX_ToggleFullScreen_def split: if_splits) auto
qed

text \<open>
  Opposite directions are never asserted together: the joystick mask of the initial state
  has no bit set, and no event sets bits 0 and 1, or bits 2 and 3, together.
\<close>

lemma joy_opposite_step:
  assumes "INP_ProcessInputEvents e s = Inr (c, s1)"
    and "\<not> (bit (joyState s) 0 \<and> bit (joyState s) 1)" "\<not> (bit (joyState s) 2 \<and> bit (joyState s) 3)"
  shows "\<not> (bit (joyState s1) 0 \<and> bit (joyState s1) 1) \<and> \<not> (bit (joyState s1) 2 \<and> bit (joyState s1) 3)"
  using INP_ProcessInputEvents_joy [OF assms(1)] assms(2,3)
  by (elim disjE) (auto simp: bit_axis_bits bit_button_bits)

lemma joy_opposite_invariant:
  "apply_events evs s = Inr s' \<Longrightarrow>
   \<not> (bit (joyState s) 0 \<and> bit (joyState s) 1) \<Longrightarrow> \<not> (bit (joyState s) 2 \<and> bit (joyState s) 3) \<Longrightarrow>
   \<not> (bit (joyState s') 0 \<and> bit (joyState s') 1) \<and> \<not> (bit (joyState s') 2 \<and> bit (joyState s') 3)"
proof (induction evs arbitrary: s)
  case Nil
  then show ?case by simp
next
  case (Cons e es)
  from Cons.prems(1) obtain c s1 where
    step: "INP_ProcessInputEvents e s = Inr (c, s1)" and rest: "apply_events es s1 = Inr s'"
    by (auto split: sum.splits)
  from joy_opposite_step [OF step Cons.prems(2,3)] Cons.IH [OF rest] show ?case
    by blast
qed

subsection \<open>Polling events\<close>

lemma EVT_ProcessEvents_pending:
  "EVT_ProcessEvents (e # pending) s = Inr (r, pending', s') \<Longrightarrow> pending' = pending"
  by (auto simp: EVT_ProcessEvents_def split: if_splits sum.splits)

lemma EVT_ProcessEvents_false:
  "EVT_ProcessEvents queue s = Inr (False, pending, s') \<longleftrightarrow>
     (\<exists>e. queue = e # pending \<and> s' = s \<and>
        (ev_type e = SDL_QUIT \<or>
         ev_type e = SDL_KEYDOWN \<and> key_sym e = SDLK_q \<and> key_mod e AND KMOD_CTRL \<noteq> 0))"
proof (cases queue)
  case Nil
  then show ?thesis by (simp add: EVT_ProcessEvents_def)
next
  case (Cons e q)
  show ?thesis
  proof (cases "ev_type e = SDL_FINGERDOWN \<or> ev_type e = SDL_FINGERMOTION \<or> ev_type e = SDL_FINGERUP")
    case True
    then show ?thesis
      unfolding Cons EVT_ProcessEvents_def
      by (auto simp: process_finger_event split: sum.splits)
  next
    case False
    then show ?thesis
      unfolding Cons EVT_ProcessEvents_def
      by (auto simp: INP_ProcessInputEvents_def)
  qed
qed

text \<open>
  C6: the claim is that one call of \<open>EVT_ProcessEvents\<close> handles every pending event.
  With two key-down events pending, LEFT and RIGHT, the call handles the first, returns
  true and leaves the second pending: bit 0 of the keyboard mask is set, bit 1 is not.
\<close>

theorem EVT_ProcessEvents_one_event:
  "EVT_ProcessEvents [key_event SDL_KEYDOWN SDLK_LEFT 0, key_event SDL_KEYDOWN SDLK_RIGHT 0]
       (initial_state 640 480 128 128)
     = Inr (True, [key_event SDL_KEYDOWN SDLK_RIGHT 0], (initial_state 640 480 128 128)\<lparr>keyState := 1\<rparr>)"
  by (simp add: EVT_ProcessEvents_def INP_ProcessInputEvents_def key_event_simps key_bits_def
      set_state_bit_def initial_state_def)

subsection \<open>Palette\<close>

lemma set_palette_indices_original:
  "original_palette (set_palette_indices ops s) = original_palette s"
  unfolding set_palette_indices_def
  by (induction ops arbitrary: s) (auto simp: GFX_SetPaletteIndex_def)

lemma set_palette_indices_only_palette:
  "\<exists>p. set_palette_indices ops s = s\<lparr>palette := p\<rparr>"
proof (induction ops arbitrary: s)
  case Nil
  have "set_palette_indices [] s = s\<lparr>palette := palette s\<rparr>"
    by (simp add: set_palette_indices_def)
  then show ?case by (intro exI [of _ "palette s"])
next
  case (Cons x xs)
  obtain i r g b where x: "x = (i, r, g, b)"
    by (cases x)
  from Cons [of "GFX_SetPaletteIndex i r g b s"] obtain p where
    "set_palette_indices xs (GFX_SetPaletteIndex i r g b s) = (GFX_SetPaletteIndex i r g b s)\<lparr>palette := p\<rparr>"
    by blast
  then have "set_palette_indices (x # xs) s = s\<lparr>palette := p\<rparr>"
    by (simp add: set_palette_indices_def x GFX_SetPaletteIndex_def)
  then show ?case by (intro exI [of _ p])
qed

lemma set_palette_indices_frame:
  "set_palette_indices ops s = s\<lparr>palette := palette (set_palette_indices ops s)\<rparr>"
proof -
  from set_palette_indices_only_palette [of ops s] obtain p where
    p: "set_palette_indices ops s = s\<lparr>palette := p\<rparr>" by blast
  then have "palette (set_palette_indices ops s) = p"
    by simp
  with p show ?thesis
    by simp
qed

lemma set_palette_indices_other:
  "j \<notin> fst ` set ops \<Longrightarrow> palette (set_palette_indices ops s) j = palette s j"
  unfolding set_palette_indices_def
  by (induction ops arbitrary: s) (auto simp: GFX_SetPaletteIndex_def)

lemma select_loop_other:
  "\<forall>i < length pal. j \<noteq> of_nat (k + i) \<Longrightarrow>
     original_palette (select_loop pal k s) j = original_palette s j
     \<and> palette (select_loop pal k s) j = palette s j"
proof (induction pal arbitrary: k s)
  case Nil
  then show ?case by simp
next
  case (Cons p ps)
  from Cons.prems have "\<forall>i < length ps. j \<noteq> of_nat (k + 1 + i)" and "j \<noteq> of_nat k"
    by force+
  with Cons.IH [of "k + 1"] show ?case
    by (simp add: Let_def)
qed

lemma select_loop_entry:
  "k + length pal \<le> 256 \<Longrightarrow> i < length pal \<Longrightarrow>
     original_palette (select_loop pal k s) (of_nat (k + i)) = palette_entry (pal ! i)
     \<and> palette (select_loop pal k s) (of_nat (k + i)) = palette_entry (pal ! i)"
proof (induction pal arbitrary: k s i)
  case Nil
  then show ?case by simp
next
  case (Cons p ps)
  show ?case
  proof (cases i)
    case 0
    have "\<forall>i' < length ps. (of_nat k :: uint8_t) \<noteq> of_nat (k + 1 + i')"
    proof (intro allI impI)
      fix i' assume "i' < length ps"
      with Cons.prems have "k < 256" "k + 1 + i' < 256"
        by simp_all
      then have "take_bit LENGTH(8) k = k" "take_bit LENGTH(8) (k + 1 + i') = k + 1 + i'"
        by (simp_all add: take_bit_nat_eq_self)
      then show "(of_nat k :: uint8_t) \<noteq> of_nat (k + 1 + i')"
        unfolding word_of_nat_eq_iff by simp
    qed
    from select_loop_other [OF this] 0 show ?thesis
      by (simp add: Let_def)
  next
    case (Suc i')
    with Cons.prems have "k + 1 + length ps \<le> 256" "i' < length ps"
      by simp_all
    from Cons.IH [OF this] Suc show ?thesis
      by (simp add: Let_def)
  qed
qed

text \<open>
  C9: after a successful \<open>GFX_SelectPalette\<close>, any sequence of \<open>GFX_SetPaletteIndex\<close>
  calls leaves the original palette as it is and changes nothing but the working palette,
  and there only the entries whose index occurs in a call; one call sets entry \<open>i\<close> of
  the working palette and no other. \<open>GFX_RestorePaletteIndex i\<close> after the calls makes
  entry \<open>i\<close> of the working palette equal to entry \<open>i\<close> of the original palette as
  the selection left it, and changes no other entry. When the selected table has an entry
  \<open>i\<close>, both palettes hold its pixel value at \<open>i\<close> after the selection.
\<close>

theorem palette_override_restore:
  assumes "GFX_SelectPalette registry name s0 = Inr s1"
  shows "original_palette (set_palette_indices ops s1) = original_palette s1
    \<and> set_palette_indices ops s1 = s1\<lparr>palette := palette (set_palette_indices ops s1)\<rparr>
    \<and> (\<forall>j. j \<notin> fst ` set ops \<longrightarrow> palette (set_palette_indices ops s1) j = palette s1 j)
    \<and> palette (GFX_SetPaletteIndex i r g b s) i = GFX_GetPixel r g b
    \<and> (\<forall>j. j \<noteq> i \<longrightarrow> palette (GFX_SetPaletteIndex i r g b s) j = palette s j)
    \<and> GFX_SetPaletteIndex i r g b s = s\<lparr>palette := palette (GFX_SetPaletteIndex i r g b s)\<rparr>
    \<and> palette (GFX_RestorePaletteIndex i (set_palette_indices ops s1)) i = original_palette s1 i
    \<and> original_palette (GFX_RestorePaletteIndex i (set_palette_indices ops s1)) = original_palette s1
    \<and> (\<forall>j. j \<noteq> i \<longrightarrow> palette (GFX_RestorePaletteIndex i (set_palette_indices ops s1)) j
          = palette (set_palette_indices ops s1) j)
    \<and> (\<forall>pal. registry name = Some pal \<and> unat i < length pal \<longrightarrow>
          original_palette s1 i = palette_entry (pal ! unat i)
        \<and> palette s1 i = palette_entry (pal ! unat i))"
proof -
  have tab: "original_palette s1 i = palette_entry (pal ! unat i)
        \<and> palette s1 i = palette_entry (pal ! unat i)"
    if "registry name = Some pal" "unat i < length pal" for pal
  proof -
    from assms that(1) have len: "length pal \<le> 256" and s1: "s1 = select_loop pal 0 s0"
      by (auto simp: GFX_SelectPalette_def split: if_splits)
    from select_loop_entry [of 0 pal "unat i" s0] len that(2) show ?thesis
      by (simp add: s1)
  qed
  show ?thesis
    using tab
    by (simp add: set_palette_indices_original set_palette_indices_other
        set_palette_indices_frame [symmetric] GFX_RestorePaletteIndex_def GFX_SetPaletteIndex_def)
qed

text \<open>
  The scenario of C9 on the sample registry: select pico8, set index 3 to (10, 20, 30),
  restore index 3; entry 3 of the working palette is the pixel value of the table's entry.
\<close>

theorem palette_override_restore_witness:
  "GFX_SelectPalette sample_registry ''pico8'' (initial_state 640 480 128 128)
     = Inr (select_loop [0x000000, 0x1D2B53, 0x7E2553, 0x008751] 0 (initial_state 640 480 128 128))
   \<and> palette (GFX_RestorePaletteIndex 3 (GFX_SetPaletteIndex 3 10 20 30
        (select_loop [0x000000, 0x1D2B53, 0x7E2553, 0x008751] 0 (initial_state 640 480 128 128)))) 3
      = palette_entry 0x008751
   \<and> original_palette (select_loop [0x000000, 0x1D2B53, 0x7E2553, 0x008751] 0
        (initial_state 640 480 128 128)) 3 = palette_entry 0x008751"
proof -
  let ?pal = "[0x000000, 0x1D2B53, 0x7E2553, 0x008751] :: 32 word list"
  let ?s0 = "initial_state 640 480 128 128"
  have sel: "GFX_SelectPalette sample_registry ''pico8'' ?s0 = Inr (select_loop ?pal 0 ?s0)"
    by (simp add: GFX_SelectPalette_def sample_registry_def)
  have ops: "set_palette_indices [(3, 10, 20, 30)] (select_loop ?pal 0 ?s0)
      = GFX_SetPaletteIndex 3 10 20 30 (select_loop ?pal 0 ?s0)"
    by (simp add: set_palette_indices_def)
  have reg: "sample_registry ''pico8'' = Some ?pal \<and> unat (3 :: uint8_t) < length ?pal"
    by (simp add: sample_registry_def)
  have nth: "?pal ! unat (3 :: uint8_t) = 0x008751"
    by simp
  from palette_override_restore [OF sel, of "[(3, 10, 20, 30)]" 3] reg
  have A: "palette (GFX_RestorePaletteIndex 3 (set_palette_indices [(3, 10, 20, 30)] (select_loop ?pal 0 ?s0))) 3
          = original_palette (select_loop ?pal 0 ?s0) 3"
    and B: "original_palette (select_loop ?pal 0 ?s0) 3 = palette_entry (?pal ! unat (3 :: uint8_t))"
    by blast+
  from B have C: "original_palette (select_loop ?pal 0 ?s0) 3 = palette_entry 0x008751"
    by (simp only: nth)
  from A have D: "palette (GFX_RestorePaletteIndex 3 (GFX_SetPaletteIndex 3 10 20 30
        (select_loop ?pal 0 ?s0))) 3 = palette_entry 0x008751"
    by (simp only: ops C)
  from sel D C show ?thesis
    by (intro conjI)
qed

subsection \<open>Copying the back buffer\<close>

lemma copy_pixel_in_bounds:
  "bo + x < length buffer \<Longrightarrow> po + x < length pixels \<Longrightarrow>
     copy_pixel pal buffer bo po x pixels = Inr (pixels[po + x := pal (buffer ! (bo + x))])"
  by (simp add: copy_pixel_def)

lemma copy_row_even:
  "even w \<Longrightarrow> even x \<Longrightarrow> x \<le> w \<Longrightarrow> bo + w \<le> length buffer \<Longrightarrow> po + w \<le> length pixels \<Longrightarrow>
     \<exists>p'. copy_row pal buffer bo po w x pixels = Inr p' \<and> length p' = length pixels
       \<and> (\<forall>n < length pixels. p' ! n =
             (if po + x \<le> n \<and> n < po + w then pal (buffer ! (bo + (n - po))) else pixels ! n))"
proof (induction pal buffer bo po w x pixels rule: copy_row.induct)
  case (1 pal buffer bo po w x pixels)
  show ?case
  proof (cases "x < w")
    case False
    then have "copy_row pal buffer bo po w x pixels = Inr pixels"
      by (subst copy_row.simps) simp
    moreover from False have "\<forall>n < length pixels. pixels ! n =
        (if po + x \<le> n \<and> n < po + w then pal (buffer ! (bo + (n - po))) else pixels ! n)"
      by auto
    ultimately show ?thesis
      by blast
  next
    case True
    with "1.prems" have x1: "x + 1 < w"
      by presburger
    let ?p1 = "pixels[po + x := pal (buffer ! (bo + x))]"
    let ?p2 = "?p1[po + (x + 1) := pal (buffer ! (bo + (x + 1)))]"
    have c1: "copy_pixel pal buffer bo po x pixels = Inr ?p1"
      using True "1.prems" by (intro copy_pixel_in_bounds) simp_all
    have c2: "copy_pixel pal buffer bo po (x + 1) ?p1 = Inr ?p2"
      using x1 "1.prems" by (intro copy_pixel_in_bounds) simp_all
    have "even (x + 1 + 1)" "x + 1 + 1 \<le> w" "po + w \<le> length ?p2"
      using "1.prems" x1 by simp_all
    from "1.IH" [OF True c1 c2 "1.prems"(1) this(1,2) "1.prems"(4) this(3)]
    obtain p' where run: "copy_row pal buffer bo po w (x + 1 + 1) ?p2 = Inr p'"
      and len: "length p' = length pixels"
      and val: "\<forall>n < length pixels. p' ! n =
             (if po + (x + 1 + 1) \<le> n \<and> n < po + w then pal (buffer ! (bo + (n - po))) else ?p2 ! n)"
      by auto
    have "copy_row pal buffer bo po w x pixels = Inr p'"
      using True c1 c2 run by (subst copy_row.simps) simp
    moreover have "\<forall>n < length pixels. p' ! n =
             (if po + x \<le> n \<and> n < po + w then pal (buffer ! (bo + (n - po))) else pixels ! n)"
    proof (intro allI impI)
      fix n assume n: "n < length pixels"
      consider "n = po + x" | "n = po + (x + 1)" | "po + (x + 1 + 1) \<le> n" | "n < po + x"
        by linarith
      then show "p' ! n = (if po + x \<le> n \<and> n < po + w then pal (buffer ! (bo + (n - po))) else pixels ! n)"
      proof cases
        case 1
        with val n x1 show ?thesis by simp
      next
        case 2
        with val n x1 show ?thesis by simp
      next
        case 3
        with val n show ?thesis by simp
      next
        case 4
        with val n show ?thesis by simp
      qed
    qed
    ultimately show ?thesis
      using len by blast
  qed
qed

lemma copy_rows_even:
  "even w \<Longrightarrow> w \<le> stride \<Longrightarrow> y \<le> h \<Longrightarrow> bo + (h - y) * w \<le> length buffer \<Longrightarrow>
   (y < h \<longrightarrow> po + (h - y - 1) * stride + w \<le> length pixels) \<Longrightarrow>
     \<exists>p'. copy_rows pal buffer bo po w h stride y pixels = Inr p' \<and> length p' = length pixels
       \<and> (\<forall>r c. r < h - y \<and> c < w \<longrightarrow> p' ! (po + r * stride + c) = pal (buffer ! (bo + r * w + c)))
       \<and> (\<forall>n < length pixels. (\<forall>r c. r < h - y \<and> c < w \<longrightarrow> n \<noteq> po + r * stride + c) \<longrightarrow>
             p' ! n = pixels ! n)"
proof (induction pal buffer bo po w h stride y pixels rule: copy_rows.induct)
  case (1 pal buffer bo po w h stride y pixels)
  show ?case
  proof (cases "y < h")
    case False
    then have "copy_rows pal buffer bo po w h stride y pixels = Inr pixels"
      by (subst copy_rows.simps) simp
    with False show ?thesis
      by simp
  next
    case True
    then obtain k where k: "h - y = Suc k"
      by (cases "h - y") simp_all
    from "1.prems" k True have bw: "bo + w \<le> length buffer" and pw: "po + w \<le> length pixels"
      by simp_all
    from copy_row_even [OF "1.prems"(1) _ _ bw pw, of 0 pal]
    obtain p1 where row: "copy_row pal buffer bo po w 0 pixels = Inr p1"
      and len1: "length p1 = length pixels"
      and val1: "\<forall>n < length pixels. p1 ! n =
             (if po \<le> n \<and> n < po + w then pal (buffer ! (bo + (n - po))) else pixels ! n)"
      by auto
    have k': "h - (y + 1) = k" and hk: "h - Suc y = k"
      using k by simp_all
    have pre1: "y + 1 \<le> h"
      using True by simp
    have pre2: "bo + w + (h - (y + 1)) * w \<le> length buffer"
      using "1.prems"(4) by (simp add: k hk)
    have pre3: "y + 1 < h \<longrightarrow> po + stride + (h - (y + 1) - 1) * stride + w \<le> length p1"
    proof (cases k)
      case 0
      with hk show ?thesis
        by simp
    next
      case (Suc k2)
      with "1.prems"(5) True k show ?thesis
        by (simp add: hk len1)
    qed
    note pre = pre1 pre2 pre3
    from "1.IH" [OF True row "1.prems"(1,2) pre]
    obtain p' where run: "copy_rows pal buffer (bo + w) (po + stride) w h stride (y + 1) p1 = Inr p'"
      and len: "length p' = length pixels"
      and val: "\<forall>r c. r < k \<and> c < w \<longrightarrow>
                  p' ! (po + stride + r * stride + c) = pal (buffer ! (bo + w + r * w + c))"
      and oth: "\<forall>n < length pixels. (\<forall>r c. r < k \<and> c < w \<longrightarrow> n \<noteq> po + stride + r * stride + c) \<longrightarrow>
                  p' ! n = p1 ! n"
      unfolding k' len1 by auto
    have all: "copy_rows pal buffer bo po w h stride y pixels = Inr p'"
      using True row run by (subst copy_rows.simps) simp
    have inside: "p' ! (po + r * stride + c) = pal (buffer ! (bo + r * w + c))"
      if "r < Suc k" "c < w" for r c
    proof (cases r)
      case 0
      from that pw have n: "po + c < length pixels"
        by simp
      have "\<forall>r' c'. r' < k \<and> c' < w \<longrightarrow> po + c \<noteq> po + stride + r' * stride + c'"
        using that "1.prems"(2) by auto
      with oth n have "p' ! (po + c) = p1 ! (po + c)"
        by blast
      also from val1 n that have "\<dots> = pal (buffer ! (bo + c))"
        by simp
      finally show ?thesis
        by (simp add: 0)
    next
      case (Suc r')
      with that val have "p' ! (po + stride + r' * stride + c) = pal (buffer ! (bo + w + r' * w + c))"
        by simp
      then show ?thesis
        by (simp add: Suc algebra_simps)
    qed
    have outside: "p' ! n = pixels ! n"
      if n: "n < length pixels" and no: "\<forall>r c. r < Suc k \<and> c < w \<longrightarrow> n \<noteq> po + r * stride + c" for n
    proof -
      have "\<forall>r c. r < k \<and> c < w \<longrightarrow> n \<noteq> po + stride + r * stride + c"
      proof (intro allI impI)
        fix r c assume "r < k \<and> c < w"
        with no [rule_format, of "Suc r" c] show "n \<noteq> po + stride + r * stride + c"
          by (simp add: algebra_simps)
      qed
      with oth n have "p' ! n = p1 ! n"
        by blast
      moreover have "\<not> (po \<le> n \<and> n < po + w)"
      proof
        assume "po \<le> n \<and> n < po + w"
        then have "n - po < w" "n = po + 0 * stride + (n - po)"
          by linarith+
        with no [rule_format, of 0 "n - po"] show False
          by simp
      qed
      ultimately show ?thesis
        using val1 n by simp
    qed
    from all len inside outside show ?thesis
      unfolding k by blast
  qed
qed

text \<open>
  For an even width the copy is the one described: with a source of at least \<open>w * h\<close>
  bytes and a destination that holds \<open>h\<close> rows of \<open>stride\<close> pixels (the last one up to
  column \<open>w\<close>), every pixel of the \<open>w\<close> columns and \<open>h\<close> rows gets the palette entry of
  its source byte and no other pixel changes.
\<close>

lemma GFX_CopyBackBuffer_even_width:
  assumes "even w" "0 < h" "w \<le> pitch div 2" "w * h \<le> length buffer"
    and "(h - 1) * (pitch div 2) + w \<le> length pixels"
  shows "\<exists>p'. GFX_CopyBackBuffer s buffer (int w) (int h) (Some (pixels, int pitch)) = Inr p'
    \<and> length p' = length pixels
    \<and> (\<forall>y x. y < h \<and> x < w \<longrightarrow> p' ! (y * (pitch div 2) + x) = palette s (buffer ! (y * w + x)))
    \<and> (\<forall>n < length pixels. (\<forall>y x. y < h \<and> x < w \<longrightarrow> n \<noteq> y * (pitch div 2) + x) \<longrightarrow>
          p' ! n = pixels ! n)"
proof -
  have a: "0 + (h - 0) * w \<le> length buffer"
    using assms(4) by (simp add: mult.commute)
  have b: "0 < h \<longrightarrow> 0 + (h - 0 - 1) * (pitch div 2) + w \<le> length pixels"
    using assms(5) by simp
  from copy_rows_even [OF assms(1,3) _ a b, of "palette s"]
  show ?thesis
    by (simp add: GFX_CopyBackBuffer_def sizeof_pixel_t_def)
qed

lemma copy_pixel_fault:
  "copy_pixel pal buffer bo po x pixels = Inl f \<Longrightarrow> f = ArrayOutOfBounds"
  by (simp add: copy_pixel_def split: if_splits)

lemma copy_pixel_past_end:
  "length buffer \<le> bo + x \<Longrightarrow> copy_pixel pal buffer bo po x pixels = Inl ArrayOutOfBounds"
  by (simp add: copy_pixel_def)

lemma copy_row_odd:
  "odd w \<Longrightarrow> even x \<Longrightarrow> x < w \<Longrightarrow> length buffer \<le> bo + w \<Longrightarrow>
     copy_row pal buffer bo po w x pixels = Inl ArrayOutOfBounds"
proof (induction pal buffer bo po w x pixels rule: copy_row.induct)
  case (1 pal buffer bo po w x pixels)
  show ?case
  proof (cases "copy_pixel pal buffer bo po x pixels")
    case (Inl f)
    with "1.prems"(3) copy_pixel_fault [OF Inl] show ?thesis
      by (subst copy_row.simps) simp
  next
    case p1: (Inr p1)
    show ?thesis
    proof (cases "copy_pixel pal buffer bo po (x + 1) p1")
      case (Inl f)
      with "1.prems"(3) p1 copy_pixel_fault [OF Inl] show ?thesis
        by (subst copy_row.simps) simp
    next
      case p2: (Inr p2)
      have "x + 1 \<noteq> w"
      proof
        assume "x + 1 = w"
        with "1.prems"(4) have "length buffer \<le> bo + (x + 1)"
          by simp
        from copy_pixel_past_end [OF this] p2 show False
          by simp
      qed
      with "1.prems" have "even (x + 1 + 1)" "x + 1 + 1 < w"
        by (simp, presburger)
      from "1.IH" [OF "1.prems"(3) p1 p2 "1.prems"(1) this "1.prems"(4)]
      show ?thesis
        using "1.prems"(3) p1 p2 by (subst copy_row.simps) simp
    qed
  qed
qed

lemma copy_row_fault:
  "copy_row pal buffer bo po w x pixels = Inl f \<Longrightarrow> f = ArrayOutOfBounds"
proof (induction pal buffer bo po w x pixels rule: copy_row.induct)
  case (1 pal buffer bo po w x pixels)
  from "1.prems" have lt: "x < w"
    by (subst (asm) copy_row.simps) (simp split: if_splits)
  show ?case
  proof (cases "copy_pixel pal buffer bo po x pixels")
    case (Inl g)
    with "1.prems" lt copy_pixel_fault [OF Inl] show ?thesis
      by (subst (asm) copy_row.simps) simp
  next
    case p1: (Inr p1)
    show ?thesis
    proof (cases "copy_pixel pal buffer bo po (x + 1) p1")
      case (Inl g)
      with "1.prems" lt p1 copy_pixel_fault [OF Inl] show ?thesis
        by (subst (asm) copy_row.simps) simp
    next
      case p2: (Inr p2)
      from "1.prems" lt p1 p2 have "copy_row pal buffer bo po w (x + 1 + 1) p2 = Inl f"
        by (subst (asm) copy_row.simps) simp
      from "1.IH" [OF lt p1 p2 this] show ?thesis .
    qed
  qed
qed

lemma copy_rows_odd:
  "odd w \<Longrightarrow> y < h \<Longrightarrow> length buffer \<le> bo + (h - y) * w \<Longrightarrow>
     copy_rows pal buffer bo po w h stride y pixels = Inl ArrayOutOfBounds"
proof (induction pal buffer bo po w h stride y pixels rule: copy_rows.induct)
  case (1 pal buffer bo po w h stride y pixels)
  from "1.prems"(1) have w0: "0 < w"
    by (cases w) simp_all
  show ?case
  proof (cases "copy_row pal buffer bo po w 0 pixels")
    case (Inl f)
    with "1.prems"(2) copy_row_fault [OF Inl] show ?thesis
      by (subst copy_rows.simps) simp
  next
    case p1: (Inr p1)
    have "y + 1 < h"
    proof (rule ccontr)
      assume "\<not> y + 1 < h"
      with "1.prems"(2) have "h - y = 1"
        by simp
      with "1.prems"(3) have "length buffer \<le> bo + w"
        by simp
      with "1.prems"(1) w0 have "copy_row pal buffer bo po w 0 pixels = Inl ArrayOutOfBounds"
        by (intro copy_row_odd) simp_all
      with p1 show False
        by simp
    qed
    moreover have "length buffer \<le> bo + w + (h - (y + 1)) * w"
    proof -
      from "1.prems"(2) obtain k where "h - y = Suc k"
        by (cases "h - y") simp_all
      moreover from this have "h - (y + 1) = k"
        by simp
      ultimately show ?thesis
        using "1.prems"(3) by simp
    qed
    ultimately have "copy_rows pal buffer (bo + w) (po + stride) w h stride (y + 1) p1
        = Inl ArrayOutOfBounds"
      using "1.IH" [OF "1.prems"(2) p1 "1.prems"(1)] by blast
    with "1.prems"(2) p1 show ?thesis
      by (subst copy_rows.simps) simp
  qed
qed

text \<open>
  For every odd width and every positive height, a source of no more than \<open>w * h\<close> bytes
  is read past its end, whatever the destination.
\<close>

lemma GFX_CopyBackBuffer_odd_fault:
  assumes "odd w" "0 < h" "length buffer \<le> w * h"
  shows "GFX_CopyBackBuffer s buffer (int w) (int h) (Some (pixels, pitch)) = Inl ArrayOutOfBounds"
proof -
  have "length buffer \<le> 0 + (h - 0) * w"
    using assms(3) by (simp add: mult.commute)
  from copy_rows_odd [OF assms(1,2) this] show ?thesis
    by (simp add: GFX_CopyBackBuffer_def)
qed

text \<open>
  C8: the claim is that, for every width and height, \<open>GFX_CopyBackBuffer\<close> reads and
  writes the \<open>w\<close> columns of the \<open>h\<close> rows and nothing else. The inner loop handles
  two columns in each round, so for the odd width 1 it also handles column 1: with a
  source of one byte it reads past its end; with a byte after the source it writes the
  destination pixel of column 1. For the width 2 and the height 2 the copy is as claimed
  (the palette here maps each index to itself, the pitch is 8 bytes, that is 4 pixels).
\<close>

theorem GFX_CopyBackBuffer_odd_width:
  "GFX_CopyBackBuffer ((initial_state 640 480 128 128)\<lparr>palette := ucast\<rparr>) [5] 1 1
       (Some ([9, 9, 9, 9], 8))
     = Inl ArrayOutOfBounds
   \<and> GFX_CopyBackBuffer ((initial_state 640 480 128 128)\<lparr>palette := ucast\<rparr>) [5, 7] 1 1
       (Some ([9, 9, 9, 9], 8))
     = Inr [5, 7, 9, 9]
   \<and> GFX_CopyBackBuffer ((initial_state 640 480 128 128)\<lparr>palette := ucast\<rparr>) [5, 7, 6, 8] 2 2
       (Some ([9, 9, 9, 9, 9, 9, 9, 9], 8))
     = Inr [5, 7, 9, 9, 6, 8, 9, 9]"
  by (simp add: GFX_CopyBackBuffer_def sizeof_pixel_t_def copy_rows.simps copy_row.simps
      copy_pixel_def)

end
